theory Spec2Isabelle
  imports Complex_Main
begin

section \<open>JavaScript numbers\<close>

text \<open>
  The library computes on JavaScript numbers, which are IEEE-754 doubles. A number is
  modelled as a rational (every finite double is one), or one of the three special
  values that the code can produce (division by zero, remainder by zero, arithmetic on
  \<open>undefined\<close>). This section gives the operators on rationals without rounding; the
  next one adds the rounding of a double operation. The sign of zero is not modelled.
\<close>

datatype number = Fin rat | PInf | NInf | NaN

fun n_neg :: "number \<Rightarrow> number" where
  "n_neg (Fin a) = Fin (- a)"
| "n_neg PInf = NInf"
| "n_neg NInf = PInf"
| "n_neg NaN = NaN"

text \<open>The operator \<open>+\<close> on two numbers.\<close>

fun n_add :: "number \<Rightarrow> number \<Rightarrow> number" where
  "n_add NaN y = NaN"
| "n_add x NaN = NaN"
| "n_add (Fin a) (Fin b) = Fin (a + b)"
| "n_add PInf NInf = NaN"
| "n_add NInf PInf = NaN"
| "n_add PInf y = PInf"
| "n_add NInf y = NInf"
| "n_add (Fin a) y = y"

text \<open>The operator \<open>-\<close> on two numbers.\<close>

definition n_sub :: "number \<Rightarrow> number \<Rightarrow> number" where
  "n_sub x y = n_add x (n_neg y)"

text \<open>Sign of a number that is not \<open>NaN\<close>: -1, 0 or 1.\<close>

fun n_sgn :: "number \<Rightarrow> int" where
  "n_sgn (Fin a) = (if a < 0 then - 1 else if a = 0 then 0 else 1)"
| "n_sgn PInf = 1"
| "n_sgn NInf = - 1"
| "n_sgn NaN = 0"

definition inf_of_sign :: "int \<Rightarrow> number" where
  "inf_of_sign s = (if s = 0 then NaN else if 0 < s then PInf else NInf)"

text \<open>The operator \<open>*\<close> on two numbers.\<close>

fun n_mul :: "number \<Rightarrow> number \<Rightarrow> number" where
  "n_mul NaN y = NaN"
| "n_mul x NaN = NaN"
| "n_mul (Fin a) (Fin b) = Fin (a * b)"
| "n_mul x y = inf_of_sign (n_sgn x * n_sgn y)"

text \<open>
  The operator \<open>/\<close> on two numbers: a non-zero number over zero is an infinity,
  zero over zero is \<open>NaN\<close>, a finite number over an infinity is zero.
\<close>

fun n_div :: "number \<Rightarrow> number \<Rightarrow> number" where
  "n_div NaN y = NaN"
| "n_div x NaN = NaN"
| "n_div (Fin a) (Fin b) = (if b = 0 then inf_of_sign (n_sgn (Fin a)) else Fin (a / b))"
| "n_div (Fin a) y = Fin 0"
| "n_div x (Fin b) = inf_of_sign (n_sgn x * (if b < 0 then - 1 else 1))"
| "n_div x y = NaN"

text \<open>Rounding towards zero, as \<open>Math.trunc\<close> and the index conversions do.\<close>

definition trunc_rat :: "rat \<Rightarrow> int" where
  "trunc_rat q = (if 0 \<le> q then \<lfloor>q\<rfloor> else \<lceil>q\<rceil>)"

fun n_trunc :: "number \<Rightarrow> number" where
  "n_trunc (Fin a) = Fin (of_int (trunc_rat a))"
| "n_trunc x = x"

text \<open>
  The operator \<open>%\<close>: the remainder of the truncating division, with the sign of the
  dividend; \<open>NaN\<close> when the divisor is zero or the dividend is infinite.
\<close>

fun n_rem :: "number \<Rightarrow> number \<Rightarrow> number" where
  "n_rem NaN y = NaN"
| "n_rem x NaN = NaN"
| "n_rem (Fin a) (Fin b) = (if b = 0 then NaN else Fin (a - b * of_int (trunc_rat (a / b))))"
| "n_rem (Fin a) y = Fin a"
| "n_rem x y = NaN"

text \<open>The comparison \<open><\<close> on two numbers; false whenever an operand is \<open>NaN\<close>.\<close>

fun n_lt :: "number \<Rightarrow> number \<Rightarrow> bool" where
  "n_lt NaN y = False"
| "n_lt x NaN = False"
| "n_lt (Fin a) (Fin b) = (a < b)"
| "n_lt x PInf = (x \<noteq> PInf)"
| "n_lt NInf y = (y \<noteq> NInf)"
| "n_lt x y = False"

text \<open>\<open>Math.max\<close> and \<open>Math.min\<close> of two numbers: \<open>NaN\<close> if either is.\<close>

definition math_max2 :: "number \<Rightarrow> number \<Rightarrow> number" where
  "math_max2 x y = (if x = NaN \<or> y = NaN then NaN else if n_lt x y then y else x)"

definition math_min2 :: "number \<Rightarrow> number \<Rightarrow> number" where
  "math_min2 x y = (if x = NaN \<or> y = NaN then NaN else if n_lt y x then y else x)"

text \<open>A number is falsy when it is zero or \<open>NaN\<close>.\<close>

definition n_truthy :: "number \<Rightarrow> bool" where
  "n_truthy x = (x \<noteq> Fin 0 \<and> x \<noteq> NaN)"

subsection \<open>Double precision\<close>

text \<open>
  The operations above are exact. A JavaScript number is a double: a result that is not
  a double is rounded to the nearest one, to the one with the even mantissa in a tie,
  and to an infinity beyond the largest double. \<open>round_dbl\<close> is that rounding on
  rationals: the spacing of the doubles around \<open>q\<close> is \<open>2^(e - 52)\<close> for the exponent \<open>e\<close>
  with \<open>2^e \<le> |q| < 2^(e + 1)\<close>, and \<open>2^-1074\<close> below \<open>2^-1022\<close>. The operations \<open>d_add\<close>,
  \<open>d_sub\<close>, \<open>d_mul\<close> and \<open>d_div\<close> are \<open>+\<close>, \<open>-\<close>, \<open>*\<close> and \<open>/\<close> as doubles carry them out;
  the remainder \<open>%\<close> of two doubles is a double and needs no rounding.

  The rounded operations are used in \<open>wrap\<close>, \<open>subtract\<close>, \<open>multiply\<close>, \<open>divide\<close>,
  \<open>normalize\<close>, \<open>lookup\<close> and \<open>rotate\<close>. The unrounded ones are kept for loop counters,
  lengths and positions (\<open>i % length\<close> in the engine, \<open>_s + s[i]\<close> in \<open>slice\<close>, the
  rotation by -1 inside \<open>_split\<close>), which are integers far below \<open>2^53\<close> on every array,
  and for the sum in \<open>add\<close> and the interpolation in \<open>lerp\<close>: what is stated of them
  below is the length of the result, which elements are paired, and that the
  interpolation mode is ignored.
\<close>

text \<open>
  \<open>bit_length n\<close> is the number of binary digits of a positive integer, \<open>ilog2 q\<close> the
  binary exponent of a positive rational, and \<open>round_even\<close> the nearest integer, the
  even one in a tie.
\<close>

function bit_length :: "int \<Rightarrow> int" where
  "bit_length n = (if n \<le> 0 then 0 else 1 + bit_length (n div 2))"
  by pat_completeness auto

termination
  by (relation "measure nat") auto

declare bit_length.simps [simp del]

definition ilog2 :: "rat \<Rightarrow> int" where
  "ilog2 q = (if 1 \<le> q then bit_length \<lfloor>q\<rfloor> - 1 else - bit_length (\<lceil>1 / q\<rceil> - 1))"

definition round_even :: "rat \<Rightarrow> int" where
  "round_even x =
     (let f = \<lfloor>x\<rfloor>; d = x - of_int f
      in if d < 1 / 2 then f else if 1 / 2 < d then f + 1 else if even f then f else f + 1)"

definition spacing :: "rat \<Rightarrow> rat" where
  "spacing q = 2 powi (max (ilog2 \<bar>q\<bar>) (- 1022) - 52)"

definition round_dbl :: "rat \<Rightarrow> number" where
  "round_dbl q =
     (if q = 0 then Fin 0
      else
        (let r = spacing q * of_int (round_even (q / spacing q))
         in if 2 ^ 1024 \<le> \<bar>r\<bar> then (if 0 < q then PInf else NInf) else Fin r))"

fun rnd :: "number \<Rightarrow> number" where
  "rnd (Fin q) = round_dbl q"
| "rnd x = x"

definition d_add :: "number \<Rightarrow> number \<Rightarrow> number" where
  "d_add x y = rnd (n_add x y)"

definition d_sub :: "number \<Rightarrow> number \<Rightarrow> number" where
  "d_sub x y = rnd (n_sub x y)"

definition d_mul :: "number \<Rightarrow> number \<Rightarrow> number" where
  "d_mul x y = rnd (n_mul x y)"

definition d_div :: "number \<Rightarrow> number \<Rightarrow> number" where
  "d_div x y = rnd (n_div x y)"

text \<open>
  The smallest positive double. Every finite double is a multiple of it, and only a
  number below it is rounded to 0.
\<close>

definition min_double :: rat where
  "min_double = 2 powi (- 1074)"

text \<open>\<open>Math.floor\<close>.\<close>

fun n_floor :: "number \<Rightarrow> number" where
  "n_floor (Fin a) = Fin (of_int \<lfloor>a\<rfloor>)"
| "n_floor x = x"

section \<open>JavaScript values\<close>

text \<open>
  The values that flow through the library: numbers, strings (symbolic tokens such as
  pitch names), arrays of values nested to any depth, and \<open>undefined\<close> (an omitted
  argument, or a read outside an array).
\<close>

datatype jsval = Num number | Str string | Arr "jsval list" | Undefined

text \<open>
  \<open>a[i]\<close> on an array: the element when the key is an integer inside the array,
  \<open>undefined\<close> for every other key (fractional, negative, too large, \<open>NaN\<close>).
\<close>

fun js_get :: "jsval list \<Rightarrow> number \<Rightarrow> jsval" where
  "js_get xs (Fin q) =
     (if of_int \<lfloor>q\<rfloor> = q \<and> 0 \<le> q \<and> nat \<lfloor>q\<rfloor> < length xs then xs ! nat \<lfloor>q\<rfloor> else Undefined)"
| "js_get xs x = Undefined"

text \<open>A number written as a natural-number loop counter or array length.\<close>

abbreviation n_nat :: "nat \<Rightarrow> number" where
  "n_nat i \<equiv> Fin (of_nat i)"

subsection \<open>Conversions between values\<close>

text \<open>
  Decimal digits of a natural number, and the decimal text of a number. Integers print
  exactly as JavaScript prints them; a fractional number prints its integer part, a
  point and at most 17 fractional digits (an idealisation: the shortest round-trip text
  of a double is not modelled).
\<close>

definition digit_char :: "nat \<Rightarrow> char" where
  "digit_char d = ''0123456789'' ! d"

fun digits_of :: "nat \<Rightarrow> string" where
  "digits_of n = (if n < 10 then [digit_char n] else digits_of (n div 10) @ [digit_char (n mod 10)])"

declare digits_of.simps [simp del]

fun frac_digits :: "nat \<Rightarrow> rat \<Rightarrow> string" where
  "frac_digits 0 f = []"
| "frac_digits (Suc k) f =
     (if f = 0 then []
      else digit_char (nat \<lfloor>10 * f\<rfloor>) # frac_digits k (10 * f - of_int \<lfloor>10 * f\<rfloor>))"

fun number_to_string :: "number \<Rightarrow> string" where
  "number_to_string NaN = ''NaN''"
| "number_to_string PInf = ''Infinity''"
| "number_to_string NInf = ''-Infinity''"
| "number_to_string (Fin q) =
     (if q < 0 then ''-'' else []) @ digits_of (nat \<lfloor>\<bar>q\<bar>\<rfloor>) @
     (if of_int \<lfloor>q\<rfloor> = q then []
      else ''.'' @ frac_digits 17 (\<bar>q\<bar> - of_int \<lfloor>\<bar>q\<bar>\<rfloor>))"

text \<open>
  Text to number: the empty text is 0 and a decimal integer with an optional minus sign
  is that integer. Every other text, pitch names included, is \<open>NaN\<close> (other numeric
  spellings, such as fractions and exponents, are outside the model).
\<close>

definition digit_val :: "char \<Rightarrow> nat option" where
  "digit_val c = map_of (zip ''0123456789'' [0..<10]) c"

fun parse_digits :: "nat \<Rightarrow> string \<Rightarrow> nat option" where
  "parse_digits acc [] = Some acc"
| "parse_digits acc (c # cs) =
     (case digit_val c of None \<Rightarrow> None | Some d \<Rightarrow> parse_digits (10 * acc + d) cs)"

definition string_to_number :: "string \<Rightarrow> number" where
  "string_to_number s =
     (case s of
        [] \<Rightarrow> Fin 0
      | c # cs \<Rightarrow>
          if c = CHR ''-'' \<and> cs \<noteq> [] then
            (case parse_digits 0 cs of None \<Rightarrow> NaN | Some n \<Rightarrow> Fin (- of_nat n))
          else (case parse_digits 0 s of None \<Rightarrow> NaN | Some n \<Rightarrow> Fin (of_nat n)))"

text \<open>
  \<open>ToString\<close>: an array prints its elements separated by commas, an \<open>undefined\<close>
  element as the empty text.
\<close>

fun join_comma :: "string list \<Rightarrow> string" where
  "join_comma [] = []"
| "join_comma [s] = s"
| "join_comma (s # t # ss) = s @ '','' @ join_comma (t # ss)"

fun js_to_string :: "jsval \<Rightarrow> string" where
  "js_to_string (Num n) = number_to_string n"
| "js_to_string (Str s) = s"
| "js_to_string Undefined = ''undefined''"
| "js_to_string (Arr xs) =
     join_comma (map (\<lambda>x. if x = Undefined then [] else js_to_string x) xs)"

text \<open>
  \<open>ToNumber\<close>: \<open>undefined\<close> is \<open>NaN\<close>; an array is converted through its text, so
  the empty array is 0, a singleton converts as its element does, and a longer array
  (whose text has a comma) is \<open>NaN\<close>.
\<close>

fun to_number :: "jsval \<Rightarrow> number" where
  "to_number (Num n) = n"
| "to_number (Str s) = string_to_number s"
| "to_number Undefined = NaN"
| "to_number (Arr []) = Fin 0"
| "to_number (Arr [x]) = (if x = Undefined then Fin 0 else to_number x)"
| "to_number (Arr (x # y # zs)) = NaN"

text \<open>
  The operator \<open>+\<close> on values: arrays become their text first; if either operand is
  then a text the result is the concatenation of both texts, otherwise the sum of both
  numbers.
\<close>

definition to_primitive :: "jsval \<Rightarrow> jsval" where
  "to_primitive x = (case x of Arr xs \<Rightarrow> Str (js_to_string x) | _ \<Rightarrow> x)"

definition is_Str :: "jsval \<Rightarrow> bool" where
  "is_Str x = (case x of Str s \<Rightarrow> True | _ \<Rightarrow> False)"

definition js_plus :: "jsval \<Rightarrow> jsval \<Rightarrow> jsval" where
  "js_plus x y =
     (let px = to_primitive x; py = to_primitive y in
      if is_Str px \<or> is_Str py then Str (js_to_string px @ js_to_string py)
      else Num (n_add (to_number px) (to_number py)))"

text \<open>
  The operators \<open>-\<close>, \<open>*\<close> and \<open>/\<close> convert both operands to numbers; the comparison
  \<open>x > 0\<close> converts \<open>x\<close> to a number.
\<close>

definition num_op :: "(number \<Rightarrow> number \<Rightarrow> number) \<Rightarrow> jsval \<Rightarrow> jsval \<Rightarrow> jsval" where
  "num_op f x y = Num (f (to_number x) (to_number y))"

definition js_gt0 :: "jsval \<Rightarrow> bool" where
  "js_gt0 x = n_lt (Fin 0) (to_number x)"

text \<open>
  A parameter default: the default replaces an omitted (\<open>undefined\<close>) argument. The
  defaults of sequence parameters are modelled this way; numeric parameters (bounds,
  rotation steps, counts, lengths, interpolation factors) are passed explicitly.
\<close>

definition dflt :: "jsval \<Rightarrow> jsval \<Rightarrow> jsval" where
  "dflt d a = (if a = Undefined then d else a)"

subsection \<open>Array methods\<close>

text \<open>
  The integer an index argument stands for (\<open>ToIntegerOrInfinity\<close> followed by the
  clamping of \<open>Array.prototype.slice\<close>): negative positions count from the end.
\<close>

fun rel_index :: "nat \<Rightarrow> number \<Rightarrow> nat" where
  "rel_index len NaN = 0"
| "rel_index len PInf = len"
| "rel_index len NInf = 0"
| "rel_index len (Fin q) =
     (if trunc_rat q < 0 then nat (max (int len + trunc_rat q) 0) else min (nat (trunc_rat q)) len)"

definition js_slice :: "jsval list \<Rightarrow> number \<Rightarrow> number \<Rightarrow> jsval list" where
  "js_slice xs s e =
     (let k = rel_index (length xs) s; final = rel_index (length xs) e
      in take (final - k) (drop k xs))"

text \<open>
  \<open>Array(len)\<close> builds an array of \<open>len\<close> empty slots (holes, \<open>None\<close> below) and throws
  a \<open>RangeError\<close> unless \<open>len\<close> is an integer from 0 to \<open>2^32 - 1\<close>. \<open>flatMap\<close> calls
  its callback on the slots that hold a value, skips the holes, and splices an array
  result into the output. \<open>Array.from\<close> copies an array, splits a text into characters,
  and gives the empty array for a number. Calling a method that a value does not have
  (\<open>map\<close> on a number, a text or \<open>undefined\<close>) throws a \<open>TypeError\<close>.
\<close>

datatype error = RangeError | TypeError

definition array_ctor :: "number \<Rightarrow> error + jsval option list" where
  "array_ctor len =
     (case len of
        Fin q \<Rightarrow> if of_int \<lfloor>q\<rfloor> = q \<and> 0 \<le> q \<and> q < 2 ^ 32
                 then Inr (replicate (nat \<lfloor>q\<rfloor>) None) else Inl RangeError
      | _ \<Rightarrow> Inl RangeError)"

definition flatMap :: "(jsval \<Rightarrow> jsval) \<Rightarrow> jsval option list \<Rightarrow> jsval list" where
  "flatMap f slots =
     concat (map (\<lambda>slot. case slot of
                            None \<Rightarrow> []
                          | Some v \<Rightarrow> (case f v of Arr ys \<Rightarrow> ys | r \<Rightarrow> [r])) slots)"

definition array_from :: "jsval \<Rightarrow> jsval list" where
  "array_from a = (case a of Arr xs \<Rightarrow> xs | Str s \<Rightarrow> map (\<lambda>c. Str [c]) s | _ \<Rightarrow> [])"

text \<open>\<open>flat(Infinity)\<close>: the leaves of a nested array, in order.\<close>

fun leaves :: "jsval \<Rightarrow> jsval list" where
  "leaves (Arr xs) = concat (map leaves xs)"
| "leaves v = [v]"

text \<open>\<open>Math.max(...vs)\<close> and \<open>Math.min(...vs)\<close> convert every argument to a number.\<close>

fun math_max :: "jsval list \<Rightarrow> number" where
  "math_max [] = NInf"
| "math_max (v # vs) = math_max2 (to_number v) (math_max vs)"

fun math_min :: "jsval list \<Rightarrow> number" where
  "math_min [] = PInf"
| "math_min (v # vs) = math_min2 (to_number v) (math_min vs)"

section \<open>utility.ts: helpers\<close>

text \<open>
  The functions keep their names from the sources. A name that is taken in HOL, or that
  reads better apart from the list functions of HOL, carries the suffix \<open>_js\<close>
  (\<open>length\<close>, \<open>add\<close>, \<open>subtract\<close>, \<open>multiply\<close>, \<open>divide\<close>, \<open>flatten\<close>, \<open>normalize\<close>,
  \<open>rotate\<close>, \<open>slice\<close>, \<open>split\<close>); the private \<open>_wrap\<close> and \<open>_split\<close> are \<open>wrap_helper\<close>
  and \<open>split_helper\<close>.
\<close>

definition toArray :: "jsval \<Rightarrow> jsval list" where
  "toArray a = (case a of Arr xs \<Rightarrow> xs | _ \<Rightarrow> [a])"

definition fromArray :: "jsval \<Rightarrow> number \<Rightarrow> jsval" where
  "fromArray a i = (case a of Arr xs \<Rightarrow> js_get xs i | _ \<Rightarrow> a)"

text \<open>
  \<open>length\<close> (alias \<open>size\<close>): the length of an array, and 1 for everything else,
  numbers included.
\<close>

definition length_js :: "jsval \<Rightarrow> nat" where
  "length_js input = (case input of Arr xs \<Rightarrow> length xs | _ \<Rightarrow> 1)"

section \<open>utility.ts: the broadcasting engine\<close>

text \<open>
  \<open>arrayCalc(a, b, operation)\<close>. When \<open>b\<close> is an array the result has the length of
  the longer operand and element \<open>i\<close> is \<open>operation\<close> applied to
  \<open>left[i % left.length]\<close> and \<open>right[i % right.length]\<close>; when neither is an array
  it is \<open>operation(a, b)\<close>; when only \<open>a\<close> is an array the function maps itself over
  the elements of \<open>a\<close>.
\<close>

fun arrayCalc :: "jsval \<Rightarrow> jsval \<Rightarrow> (jsval \<Rightarrow> jsval \<Rightarrow> jsval) \<Rightarrow> jsval" where
  "arrayCalc a (Arr right) operation =
     (let left = toArray a in
      Arr (map (\<lambda>i. operation
                       (fromArray (Arr left) (n_rem (n_nat i) (n_nat (length left))))
                       (fromArray (Arr right) (n_rem (n_nat i) (n_nat (length right)))))
               [0..<max (length left) (length right)]))"
| "arrayCalc (Arr left) b operation = Arr (map (\<lambda>x. arrayCalc x b operation) left)"
| "arrayCalc a b operation = operation a b"

text \<open>
  The operations built on it (\<open>mod\<close>, \<open>pow\<close> and \<open>sqrt\<close> are further instances of
  \<open>arrayCalc\<close> and are not needed below).
\<close>

definition add_js :: "jsval \<Rightarrow> jsval \<Rightarrow> jsval" where
  "add_js a b = arrayCalc (dflt (Num (Fin 0)) a) (dflt (Num (Fin 0)) b) js_plus"

definition subtract_js :: "jsval \<Rightarrow> jsval \<Rightarrow> jsval" where
  "subtract_js a b = arrayCalc (dflt (Num (Fin 0)) a) (dflt (Num (Fin 0)) b) (num_op d_sub)"

definition multiply_js :: "jsval \<Rightarrow> jsval \<Rightarrow> jsval" where
  "multiply_js a b = arrayCalc (dflt (Num (Fin 0)) a) (dflt (Num (Fin 1)) b) (num_op d_mul)"

definition divide_js :: "jsval \<Rightarrow> jsval \<Rightarrow> jsval" where
  "divide_js a b = arrayCalc (dflt (Num (Fin 0)) a) (dflt (Num (Fin 1)) b) (num_op d_div)"

text \<open>\<open>lerp(a = 0, b = 0, f)\<close> with the operation \<open>a * (1 - f) + b * f\<close>.\<close>

definition lerp :: "jsval \<Rightarrow> jsval \<Rightarrow> number \<Rightarrow> jsval" where
  "lerp a b f =
     arrayCalc (dflt (Num (Fin 0)) a) (dflt (Num (Fin 0)) b)
       (num_op (\<lambda>x y. n_add (n_mul x (n_sub (Fin 1) f)) (n_mul y f)))"

section \<open>utility.ts: wrap\<close>



section \<open>utility.ts: reduction and normalization\<close>

text \<open>\<open>flatten(a = [0])\<close> with its default depth \<open>Infinity\<close>, the only depth used here.\<close>

definition flatten_js :: "jsval \<Rightarrow> jsval list" where
  "flatten_js a = leaves (Arr (toArray (dflt (Arr [Num (Fin 0)]) a)))"

definition maximum :: "jsval \<Rightarrow> jsval" where
  "maximum a =
     (case dflt (Arr [Num (Fin 0)]) a of
        Arr xs \<Rightarrow> Num (math_max (flatten_js (Arr xs)))
      | v \<Rightarrow> v)"

definition minimum :: "jsval \<Rightarrow> jsval" where
  "minimum a =
     (case dflt (Arr [Num (Fin 0)]) a of
        Arr xs \<Rightarrow> Num (math_min (flatten_js (Arr xs)))
      | v \<Rightarrow> v)"

definition normalize_js :: "jsval \<Rightarrow> jsval" where
  "normalize_js a0 =
     (let a = Arr (toArray (dflt (Arr [Num (Fin 0)]) a0));
          mn = minimum a;
          range = d_sub (to_number (maximum a)) (to_number mn);
          normalizedRange = (if n_truthy range then range else Fin 0)
      in divide_js (subtract_js a mn) (Num normalizedRange))"

section \<open>transform.ts: structural transformers\<close>

text \<open>
  \<open>duplicate(arr = [0], duplicates)\<close> is
  \<open>Array(Math.max(1, duplicates)).flatMap(value => Array.from(arr))\<close>.
\<close>

definition duplicate :: "jsval \<Rightarrow> number \<Rightarrow> error + jsval list" where
  "duplicate arr duplicates =
     (case array_ctor (math_max2 (Fin 1) duplicates) of
        Inl e \<Rightarrow> Inl e
      | Inr slots \<Rightarrow>
          Inr (flatMap (\<lambda>value. Arr (array_from (dflt (Arr [Num (Fin 0)]) arr))) slots))"

text \<open>\<open>palindrome(arr, noDouble = false)\<close> and \<open>reverse(a = [0])\<close>.\<close>

definition palindrome :: "jsval \<Rightarrow> bool \<Rightarrow> jsval list" where
  "palindrome arr noDouble =
     (case arr of
        Undefined \<Rightarrow> [Num (Fin 0)]
      | Arr xs \<Rightarrow>
          (let r = rev xs;
               r' = (if noDouble then js_slice r (Fin 1) (n_sub (n_nat (length r)) (Fin 1)) else r)
           in xs @ r')
      | v \<Rightarrow> [v])"

definition reverse :: "jsval \<Rightarrow> jsval list" where
  "reverse a = (case dflt (Arr [Num (Fin 0)]) a of Arr xs \<Rightarrow> rev xs | v \<Rightarrow> [v])"

section \<open>transform.ts: rotate\<close>

text \<open>
  \<open>rotate(a = [0], r = 0)\<close>: a non-array becomes a singleton; otherwise element
  \<open>i\<close> of the result is \<open>a[((i - r) % l + l) % l]\<close>.
\<close>

definition rotate_index :: "nat \<Rightarrow> number \<Rightarrow> nat \<Rightarrow> number" where
  "rotate_index l r i = n_rem (n_add (n_rem (n_sub (n_nat i) r) (n_nat l)) (n_nat l)) (n_nat l)"

definition rotate_js :: "jsval \<Rightarrow> number \<Rightarrow> jsval list" where
  "rotate_js a r =
     (case dflt (Arr [Num (Fin 0)]) a of
        Arr xs \<Rightarrow> map (\<lambda>i. js_get xs (rotate_index (length xs) r i)) [0..<length xs]
      | v \<Rightarrow> [v])"

text \<open>
  \<open>rotate_index\<close> carries the index expression out exactly, \<open>rotate_index_dbl\<close> as
  doubles do: \<open>i - r\<close> and the sum \<open>\<dots> + l\<close> are rounded. The two agree while
  \<open>|r| + l\<close> stays below \<open>2^53\<close>, and so on every call that \<open>_split\<close> makes, where \<open>r\<close>
  is -1; beyond that the rounded index is the one that \<open>rotate\<close> reads.
\<close>

definition rotate_index_dbl :: "nat \<Rightarrow> number \<Rightarrow> nat \<Rightarrow> number" where
  "rotate_index_dbl l r i = n_rem (d_add (n_rem (d_sub (n_nat i) r) (n_nat l)) (n_nat l)) (n_nat l)"

definition rotate_dbl :: "jsval \<Rightarrow> number \<Rightarrow> jsval list" where
  "rotate_dbl a r =
     (case dflt (Arr [Num (Fin 0)]) a of
        Arr xs \<Rightarrow> map (\<lambda>i. js_get xs (rotate_index_dbl (length xs) r i)) [0..<length xs]
      | v \<Rightarrow> [v])"

section \<open>transform.ts: slice and split\<close>

text \<open>
  \<open>slice(a = [0], s = [0], r = true)\<close>. The loop visits every entry of \<open>s\<close> once; an
  entry greater than 0 pushes \<open>a.slice(_s, _s + s[i])\<close> and moves \<open>_s\<close> on. The loop
  state is the start \<open>_s\<close> and the chunks pushed so far.
\<close>

fun slice_loop :: "jsval list \<Rightarrow> jsval list \<Rightarrow> jsval \<Rightarrow> jsval list \<Rightarrow> jsval list \<times> jsval" where
  "slice_loop a [] st arr = (arr, st)"
| "slice_loop a (x # xs) st arr =
     (if js_gt0 x then
        (let t = js_plus st x
         in slice_loop a xs t (arr @ [Arr (js_slice a (to_number st) (to_number t))]))
      else slice_loop a xs st arr)"

definition slice_js :: "jsval \<Rightarrow> jsval \<Rightarrow> bool \<Rightarrow> jsval list" where
  "slice_js a0 s0 r =
     (let a = toArray (dflt (Arr [Num (Fin 0)]) a0);
          s = toArray (dflt (Arr [Num (Fin 0)]) s0);
          (arr, st) = slice_loop a s (Num (Fin 0)) [];
          rest = js_slice a (to_number st) (n_nat (length a))
      in if r \<and> length rest > 0 then arr @ [Arr rest] else arr)"

text \<open>
  \<open>split(a = [0], s = [1])\<close> calls \<open>_split\<close> (\<open>split_helper\<close> below) on both arguments
  as arrays, and \<open>_split\<close> calls \<open>split\<close> again on the rest with the sizes rotated by
  -1; in that call both arguments are arrays, so the defaults of \<open>split\<close> do not apply.
  The recursion need not end, so the result is optional: \<open>None\<close> stands for a call that
  never returns.
\<close>

partial_function (option) split_helper :: "jsval list \<Rightarrow> jsval list \<Rightarrow> jsval list option" where
  "split_helper a s =
     (if js_gt0 (js_get s (Fin 0)) then
        (if length (js_slice a (to_number (js_get s (Fin 0))) (n_nat (length a))) < 1
         then Some [Arr (js_slice a (Fin 0) (to_number (js_get s (Fin 0))))]
         else Option.bind
                (split_helper
                   (toArray (Arr (js_slice a (to_number (js_get s (Fin 0))) (n_nat (length a)))))
                   (toArray (Arr (rotate_js (Arr s) (Fin (- 1))))))
                (\<lambda>rest. Some (Arr (js_slice a (Fin 0) (to_number (js_get s (Fin 0)))) # rest)))
      else split_helper (toArray (Arr a)) (toArray (Arr (rotate_js (Arr s) (Fin (- 1))))))"

definition split_js :: "jsval \<Rightarrow> jsval \<Rightarrow> jsval list option" where
  "split_js a s =
     split_helper (toArray (dflt (Arr [Num (Fin 0)]) a)) (toArray (dflt (Arr [Num (Fin 1)]) s))"

section \<open>transform.ts: stretch\<close>

text \<open>
  \<open>stretch(a = [0], len, mode)\<close>. After the early return for \<open>len < 2\<close> the length is
  replaced by \<open>length(len)\<close>. The call \<open>lerp(a0, a1, val % 1, mode)\<close> passes a fourth
  argument to a function of three parameters, which drops it. The type of \<open>mode\<close> is
  declared outside the sources at hand and is left open.
\<close>

definition lerp_call4 :: "jsval \<Rightarrow> jsval \<Rightarrow> number \<Rightarrow> 'm \<Rightarrow> jsval" where
  "lerp_call4 a b f mode = lerp a b f"

definition stretch :: "jsval \<Rightarrow> number \<Rightarrow> 'm \<Rightarrow> jsval list" where
  "stretch input len0 mode =
     (let a = toArray (dflt (Arr [Num (Fin 0)]) input) in
      if n_lt len0 (Fin 2) then a
      else
        (let len = length_js (Num len0); l = length a in
         map (\<lambda>i.
                let val = n_mul (n_div (n_nat i) (n_sub (n_nat len) (Fin 1))) (n_sub (n_nat l) (Fin 1));
                    a0 = js_get a (math_max2 (n_trunc val) (Fin 0));
                    a1 = js_get a (n_rem (math_min2 (n_add (n_trunc val) (Fin 1)) (n_sub (n_nat l) (Fin 1)))
                                         (n_nat (length a)))
                in lerp_call4 a0 a1 (n_rem val (Fin 1)) mode)
             [0..<len]))"

section \<open>transform.ts: lace, merge, lookup, repeat and spray\<close>

text \<open>
  The rest parameter \<open>...arrs\<close> of \<open>lace\<close> and of \<open>merge\<close> is the list of the arguments.
  Both convert every argument with \<open>toArray\<close>, run over the positions below the greatest
  length, and leave out what is \<open>undefined\<close> at a position: \<open>lace\<close> pushes the values one
  by one, \<open>merge\<close> collects the values of one position in an array and splices a value
  that is an array.
\<close>

definition lace :: "jsval list \<Rightarrow> jsval list" where
  "lace arrs =
     (if arrs = [] then [Num (Fin 0)]
      else
        (let arrs' = map toArray arrs; l = fold max (map length arrs') 0
         in concat (map (\<lambda>i. concat (map (\<lambda>a. let v = js_get a (n_nat i)
                                                in if v \<noteq> Undefined then [v] else []) arrs'))
                        [0..<l])))"

definition merge_js :: "jsval list \<Rightarrow> jsval list" where
  "merge_js arrs =
     (if arrs = [] then [Num (Fin 0)]
      else
        (let arrs' = map toArray arrs; l = fold max (map length arrs') 0
         in map (\<lambda>i. Arr (concat (map (\<lambda>a. case js_get a (n_nat i) of
                                                Undefined \<Rightarrow> []
                                              | Arr ys \<Rightarrow> ys
                                              | v \<Rightarrow> [v]) arrs')))
                [0..<l]))"

text \<open>
  \<open>lookup(idx = [0], arr = [0])\<close>. An index that is an array is looked up by a
  recursive call, whose result is pushed as one element; an index that \<open>isNaN\<close> rejects is
  skipped; every other index \<open>v\<close> reads \<open>arr[(Math.floor(v) % len + len) % len]\<close>.
\<close>

fun lookup_item :: "jsval list \<Rightarrow> jsval \<Rightarrow> jsval list" where
  "lookup_item arr (Arr idx) = [Arr (concat (map (lookup_item arr) idx))]"
| "lookup_item arr v =
     (if to_number v = NaN then []
      else [js_get arr
              (n_rem (d_add (n_rem (n_floor (to_number v)) (n_nat (length arr))) (n_nat (length arr)))
                     (n_nat (length arr)))])"

definition lookup_js :: "jsval \<Rightarrow> jsval \<Rightarrow> jsval list" where
  "lookup_js idx arr =
     concat (map (lookup_item (toArray (dflt (Arr [Num (Fin 0)]) arr)))
                 (toArray (dflt (Arr [Num (Fin 0)]) idx)))"

text \<open>
  \<open>repeat(arr = [0], rep = 1)\<close>. The count of element \<open>i\<close> is \<open>rep[i % rep.length]\<close>,
  replaced by 0 when it is \<open>NaN\<close> or negative. The loop \<open>for (k = 0; k < r; k++)\<close> pushes
  \<open>\<lceil>r\<rceil>\<close> times for a finite \<open>r\<close>; for \<open>Infinity\<close> it does not end by itself, and the
  result is \<open>None\<close>.
\<close>

definition pushes :: "number \<Rightarrow> nat option" where
  "pushes r = (case r of Fin q \<Rightarrow> Some (nat \<lceil>q\<rceil>) | PInf \<Rightarrow> None | _ \<Rightarrow> Some 0)"

fun repeat_loop :: "jsval list \<Rightarrow> jsval list \<Rightarrow> nat list \<Rightarrow> jsval list option" where
  "repeat_loop arr rep [] = Some []"
| "repeat_loop arr rep (i # ks) =
     (let r0 = to_number (js_get rep (n_rem (n_nat i) (n_nat (length rep))));
          r = (if r0 = NaN \<or> n_lt r0 (Fin 0) then Fin 0 else r0)
      in case pushes r of
           None \<Rightarrow> None
         | Some n \<Rightarrow>
             (case repeat_loop arr rep ks of
                None \<Rightarrow> None
              | Some rest \<Rightarrow> Some (replicate n (js_get arr (n_nat i)) @ rest)))"

definition repeat_js :: "jsval \<Rightarrow> jsval \<Rightarrow> jsval list option" where
  "repeat_js arr rep =
     (let arr' = toArray (dflt (Arr [Num (Fin 0)]) arr);
          rep' = toArray (dflt (Num (Fin 1)) rep)
      in repeat_loop arr' rep' [0..<length arr'])"

text \<open>
  \<open>spray(values = [0], beats = [0])\<close>. The loop copies \<open>beats\<close> and replaces every beat
  greater than 0 by \<open>values[c++ % values.length]\<close>; the loop state is the counter \<open>c\<close>.
\<close>

fun spray_loop :: "jsval list \<Rightarrow> jsval list \<Rightarrow> nat \<Rightarrow> jsval list" where
  "spray_loop vals [] c = []"
| "spray_loop vals (b # beats) c =
     (if js_gt0 b
      then js_get vals (n_rem (n_nat c) (n_nat (length vals))) # spray_loop vals beats (Suc c)
      else b # spray_loop vals beats c)"

definition spray :: "jsval \<Rightarrow> jsval \<Rightarrow> jsval list" where
  "spray vals beats =
     spray_loop (toArray (dflt (Arr [Num (Fin 0)]) vals)) (toArray (dflt (Arr [Num (Fin 0)]) beats)) 0"

section \<open>transform.ts: clone\<close>

text \<open>
  \<open>clone(a = [0], ...clones)\<close>. For every entry of \<open>clones\<close> the first \<open>flatMap\<close> builds
  \<open>Array(offset).fill(a).flat()\<close>: \<open>offset\<close> copies of \<open>a\<close> flattened by one level when
  \<open>offset\<close> is a number (a \<open>RangeError\<close> when it is no array length), one copy otherwise;
  the results are concatenated into \<open>offsetArray\<close>. The second \<open>flatMap\<close> runs over
  \<open>[a, ...offsetArray]\<close> and calls \<open>values.map\<close> on each element, which throws a
  \<open>TypeError\<close> on an element that is no array; the callback of \<open>map\<close> appends
  \<open>clones[index]\<close> to the text of the value when it is a text and calls \<open>add\<close> otherwise,
  \<open>index\<close> being the position inside \<open>values\<close>. The first error ends the call.
\<close>

definition flat1 :: "jsval list \<Rightarrow> jsval list" where
  "flat1 zs = concat (map (\<lambda>z. case z of Arr ys \<Rightarrow> ys | _ \<Rightarrow> [z]) zs)"

fun collect :: "(error + jsval list) list \<Rightarrow> error + jsval list" where
  "collect [] = Inr []"
| "collect (Inl e # rs) = Inl e"
| "collect (Inr xs # rs) = (case collect rs of Inl e \<Rightarrow> Inl e | Inr ys \<Rightarrow> Inr (xs @ ys))"

definition clone_copies :: "jsval \<Rightarrow> jsval \<Rightarrow> error + jsval list" where
  "clone_copies a offset =
     (case offset of
        Num n \<Rightarrow> (case array_ctor n of
                    Inl e \<Rightarrow> Inl e
                  | Inr slots \<Rightarrow> Inr (flat1 (map (\<lambda>slot. a) slots)))
      | _ \<Rightarrow> Inr (flat1 [a]))"

definition clone_values :: "jsval list \<Rightarrow> jsval \<Rightarrow> error + jsval list" where
  "clone_values clones vals =
     (case vals of
        Arr vs \<Rightarrow>
          Inr (map (\<lambda>index. case js_get clones (n_nat index) of
                              Str t \<Rightarrow> Str (js_to_string (vs ! index) @ t)
                            | c \<Rightarrow> add_js (vs ! index) c)
                   [0..<length vs])
      | _ \<Rightarrow> Inl TypeError)"

definition clone :: "jsval \<Rightarrow> jsval list \<Rightarrow> error + jsval list" where
  "clone a0 clones =
     (let a = dflt (Arr [Num (Fin 0)]) a0 in
      case collect (map (clone_copies a) (toArray (Arr clones))) of
        Inl e \<Rightarrow> Inl e
      | Inr offsetArray \<Rightarrow> collect (map (clone_values clones) (a # offsetArray)))"

section \<open>Notions used to state the properties\<close>

text \<open>
  Mapping a function on numbers over every element of a sequence, recursing into nested
  arrays.
\<close>

fun map_leaves :: "(number \<Rightarrow> number) \<Rightarrow> jsval \<Rightarrow> jsval" where
  "map_leaves f (Arr xs) = Arr (map (map_leaves f) xs)"
| "map_leaves f v = Num (f (to_number v))"

text \<open>
  A sequence of doubles: every leaf is a finite number that rounding leaves unchanged.
  \<open>leaf_values\<close> lists the finite numbers among the leaves, and the least and the
  greatest leaf are the members of that list that bound all the others.
\<close>

fun doubles :: "jsval \<Rightarrow> bool" where
  "doubles (Num (Fin q)) = (round_dbl q = Fin q)"
| "doubles (Arr xs) = list_all doubles xs"
| "doubles v = False"

definition leaf_values :: "jsval \<Rightarrow> rat list" where
  "leaf_values a = concat (map (\<lambda>v. case v of Num (Fin q) \<Rightarrow> [q] | _ \<Rightarrow> []) (leaves a))"

definition least_leaf :: "jsval \<Rightarrow> rat \<Rightarrow> bool" where
  "least_leaf a m = (m \<in> set (leaf_values a) \<and> (\<forall>q \<in> set (leaf_values a). m \<le> q))"

definition greatest_leaf :: "jsval \<Rightarrow> rat \<Rightarrow> bool" where
  "greatest_leaf a m = (m \<in> set (leaf_values a) \<and> (\<forall>q \<in> set (leaf_values a). q \<le> m))"

text \<open>A bare scalar: a number or a symbolic token.\<close>

definition is_scalar :: "jsval \<Rightarrow> bool" where
  "is_scalar v = (case v of Num n \<Rightarrow> True | Str t \<Rightarrow> True | _ \<Rightarrow> False)"

text \<open>
  Cutting a list into consecutive chunks whose lengths are the positive entries of a
  list of integer sizes, every entry used once and in order; a chunk is cut short
  where the list ends. \<open>consumed\<close> is the number of positions those entries ask for.
\<close>

fun chunks :: "int list \<Rightarrow> 'a list \<Rightarrow> 'a list list" where
  "chunks [] xs = []"
| "chunks (n # ns) xs =
     (if 0 < n then take (nat n) xs # chunks ns (drop (nat n) xs) else chunks ns xs)"

definition consumed :: "int list \<Rightarrow> nat" where
  "consumed ns = nat (sum_list (filter (\<lambda>n. 0 < n) ns))"

text \<open>A size that is at least 1, so that cutting it off a non-empty list makes progress.\<close>

definition one_le :: "number \<Rightarrow> bool" where
  "one_le n = (case n of Fin q \<Rightarrow> 1 \<le> q | PInf \<Rightarrow> True | _ \<Rightarrow> False)"

section \<open>Rounding to doubles\<close>

text \<open>
  \<open>ilog2\<close> is the binary exponent: \<open>2^(ilog2 q) \<le> q < 2^(ilog2 q + 1)\<close> for positive \<open>q\<close>.
  A multiple of the spacing below \<open>2^1024\<close> is a double, so rounding leaves it as it is;
  that holds for every integer up to \<open>2^53\<close> and every such integer divided by a power
  of two down to \<open>2^-1022\<close>.
\<close>

lemma of_int_le_pow2: "c \<le> 2 ^ k \<Longrightarrow> (of_int c :: rat) \<le> 2 ^ k"
  by (metis of_int_le_iff of_int_numeral of_int_power)

lemma pow2_le_of_int: "2 ^ k \<le> c \<Longrightarrow> (2 ^ k :: rat) \<le> of_int c"
  by (metis of_int_le_iff of_int_numeral of_int_power)

lemma bit_length_bounds:
  "0 < n \<Longrightarrow> 1 \<le> bit_length n \<and> 2 ^ nat (bit_length n - 1) \<le> n \<and> n < 2 ^ nat (bit_length n)"
proof (induction n rule: bit_length.induct)
  case (1 n)
  show ?case
  proof (cases "n = 1")
    case True
    have "bit_length 1 = 1" by (simp add: bit_length.simps)
    then show ?thesis using True by simp
  next
    case False
    with 1 have h: "0 < n div 2" by simp
    have nle: "\<not> n \<le> 0" using 1 by simp
    from 1(1)[OF nle h]
    have b1: "1 \<le> bit_length (n div 2)"
      and lo: "2 ^ nat (bit_length (n div 2) - 1) \<le> n div 2"
      and hi: "n div 2 < 2 ^ nat (bit_length (n div 2))" by simp_all
    have bl: "bit_length n = 1 + bit_length (n div 2)"
      using nle by (subst bit_length.simps) simp
    define b where "b = bit_length (n div 2)"
    have nb: "nat (1 + b) = Suc (nat b)" "nat (1 + b - 1) = Suc (nat (b - 1))"
      using b1 by (simp_all add: b_def)
    have "2 * 2 ^ nat (b - 1) \<le> 2 * (n div 2)" using lo by (simp add: b_def)
    then have l2: "(2::int) ^ Suc (nat (b - 1)) \<le> n" by simp
    have "n div 2 + 1 \<le> 2 ^ nat b" using hi by (simp add: b_def)
    then have "2 * (n div 2) + 2 \<le> 2 * 2 ^ nat b" by simp
    then have h2: "n < (2::int) ^ Suc (nat b)" by simp
    show ?thesis unfolding bl b_def[symmetric] nb using b1 l2 h2 by (simp add: b_def)
  qed
qed

lemma ilog2_bounds:
  assumes "0 < q"
  shows "2 powi (ilog2 q) \<le> q" "q < 2 powi (ilog2 q + 1)"
proof -
  have "2 powi (ilog2 q) \<le> q \<and> q < 2 powi (ilog2 q + 1)"
  proof (cases "1 \<le> q")
    case True
    define n where "n = \<lfloor>q\<rfloor>"
    have n: "0 < n" using True by (simp add: n_def)
    note b = bit_length_bounds[OF n]
    define b where "b = bit_length n"
    have e: "ilog2 q = b - 1" using True by (simp add: ilog2_def n_def b_def)
    have b1: "1 \<le> b" using b by (simp add: b_def)
    have "2 ^ nat (b - 1) \<le> n" using b by (simp add: b_def)
    then have "(2 ^ nat (b - 1) :: rat) \<le> of_int n" by (rule pow2_le_of_int)
    also have "\<dots> \<le> q" by (simp add: n_def)
    finally have l: "2 powi (b - 1) \<le> q" using b1 by (simp add: power_int_nonneg_exp)
    have "n + 1 \<le> 2 ^ nat b" using b by (simp add: b_def)
    then have "(of_int (n + 1) :: rat) \<le> 2 ^ nat b" by (rule of_int_le_pow2)
    moreover have "q < of_int (n + 1)" unfolding n_def by linarith
    ultimately have "q < 2 ^ nat b" by linarith
    then have u: "q < 2 powi b" using b1 by (simp add: power_int_nonneg_exp)
    show ?thesis using l u by (simp add: e)
  next
    case False
    define c where "c = \<lceil>1 / q\<rceil>"
    have inv: "1 < 1 / q" using False assms by simp
    then have c2: "2 \<le> c" unfolding c_def by linarith
    define m where "m = c - 1"
    have m: "0 < m" using c2 by (simp add: m_def)
    note bb = bit_length_bounds[OF m]
    define b where "b = bit_length m"
    have b1: "1 \<le> b" and lo: "2 ^ nat (b - 1) \<le> m" and hi: "m < 2 ^ nat b"
      using bb by (simp_all add: b_def)
    have e: "ilog2 q = - b" using False by (simp add: ilog2_def c_def m_def b_def)
    have "c \<le> 2 ^ nat b" using hi by (simp add: m_def)
    then have "(of_int c :: rat) \<le> 2 ^ nat b" by (rule of_int_le_pow2)
    moreover have "1 / q \<le> of_int c" unfolding c_def by linarith
    ultimately have "1 / q \<le> 2 ^ nat b" by linarith
    then have "1 \<le> 2 ^ nat b * q" using assms by (simp add: field_simps)
    then have "1 / 2 ^ nat b \<le> q" by (simp add: field_simps)
    then have l: "2 powi (- b) \<le> q" using b1 by (simp add: power_int_minus power_int_nonneg_exp field_simps)
    have "(2 ^ nat (b - 1) :: rat) \<le> of_int m" using lo by (rule pow2_le_of_int)
    moreover have "of_int m < 1 / q" unfolding m_def c_def by simp linarith
    ultimately have "2 ^ nat (b - 1) < 1 / q" by linarith
    then have "2 ^ nat (b - 1) * q < 1" using assms by (simp add: field_simps)
    then have "q < 1 / 2 ^ nat (b - 1)" by (simp add: field_simps)
    moreover have "(2::rat) powi (- b + 1) = 1 / 2 ^ nat (b - 1)"
    proof -
      have "(2::rat) powi (- b + 1) = 2 powi (- (b - 1))" by simp
      also have "\<dots> = inverse (2 powi (b - 1))" by (rule power_int_minus)
      also have "\<dots> = 1 / 2 ^ nat (b - 1)" using b1 by (simp add: power_int_nonneg_exp field_simps)
      finally show ?thesis .
    qed
    ultimately have u: "q < 2 powi (- b + 1)" by simp
    show ?thesis using l u by (simp add: e)
  qed
  then show "2 powi (ilog2 q) \<le> q" "q < 2 powi (ilog2 q + 1)" by simp_all
qed

lemma ilog2_unique:
  assumes "0 < q" "2 powi e \<le> q" "q < 2 powi (e + 1)"
  shows "ilog2 q = e"
proof -
  note b = ilog2_bounds[OF assms(1)]
  have "(2::rat) powi (ilog2 q) < 2 powi (e + 1)" using b(1) assms(3) by linarith
  then have 1: "ilog2 q < e + 1"
    by (metis power_int_increasing not_less one_le_numeral)
  have "(2::rat) powi e < 2 powi (ilog2 q + 1)" using b(2) assms(2) by linarith
  then have 2: "e < ilog2 q + 1"
    by (metis power_int_increasing not_less one_le_numeral)
  show ?thesis using 1 2 by simp
qed

lemma round_even_of_int: "round_even (of_int k) = k"
  by (simp add: round_even_def)

lemma spacing_pos: "0 < spacing q"
  by (simp add: spacing_def)

lemma round_dbl_exact:
  assumes "q = spacing q * of_int k" "\<bar>q\<bar> < 2 ^ 1024"
  shows "round_dbl q = Fin q"
proof (cases "q = 0")
  case True
  then show ?thesis by (simp add: round_dbl_def)
next
  case False
  have s: "spacing q \<noteq> 0" using spacing_pos[of q] by simp
  have "q / spacing q = of_int k" using assms(1) s by (metis nonzero_mult_div_cancel_left)
  then have "spacing q * of_int (round_even (q / spacing q)) = q"
    using assms(1) by (simp add: round_even_of_int)
  then show ?thesis using False assms(2) by (simp add: round_dbl_def Let_def)
qed

lemma pow2_diff: "0 \<le> m \<Longrightarrow> (2::rat) powi (m - int k) = 2 ^ nat m / 2 ^ k"
  by (simp add: power_int_diff power_int_nonneg_exp)

lemma round_dbl_dyadic:
  assumes "\<bar>n\<bar> \<le> 2 ^ 53" "k \<le> 1022"
  shows "round_dbl (of_int n / 2 ^ k) = Fin (of_int n / 2 ^ k)"
proof (cases "n = 0")
  case True
  then show ?thesis by (simp add: round_dbl_def)
next
  case False
  define a where "a = \<bar>n\<bar>"
  have a: "0 < a" "a \<le> 2 ^ 53" using False assms by (simp_all add: a_def)
  define q :: rat where "q = of_int n / 2 ^ k"
  have absq: "\<bar>q\<bar> = of_int a / 2 ^ k" by (simp add: q_def a_def)
  define e where "e = bit_length a - 1"
  note b = bit_length_bounds[OF a(1)]
  have e0: "0 \<le> e" using b by (simp add: e_def)
  have ea: "2 ^ nat e \<le> a" using b by (simp add: e_def)
  have eb: "a < 2 ^ nat (e + 1)" using b by (simp add: e_def)
  have p0: "(0::rat) < 2 ^ k" by simp
  have "(2 ^ nat e :: rat) \<le> of_int a" using ea by (rule pow2_le_of_int)
  then have lo: "2 powi (e - int k) \<le> \<bar>q\<bar>"
    unfolding absq pow2_diff[OF e0] using p0 by (simp add: divide_le_cancel)
  have "(of_int a :: rat) < 2 ^ nat (e + 1)" using eb by simp
  moreover have "(2::rat) powi (e - int k + 1) = 2 ^ nat (e + 1) / 2 ^ k"
  proof -
    have "e - int k + 1 = (e + 1) - int k" by simp
    moreover have "(2::rat) powi ((e + 1) - int k) = 2 ^ nat (e + 1) / 2 ^ k"
      using e0 by (intro pow2_diff) simp
    ultimately show ?thesis by (simp only:)
  qed
  ultimately have hi: "\<bar>q\<bar> < 2 powi (e - int k + 1)"
    unfolding absq using p0 by (simp add: divide_less_cancel)
  have qpos: "0 < \<bar>q\<bar>" using a(1) by (simp add: absq)
  have il: "ilog2 \<bar>q\<bar> = e - int k" using qpos lo hi by (rule ilog2_unique)
  have kk: "int k \<le> 1022" using assms(2) by simp
  have mx: "max (e - int k) (- 1022) = e - int k" using e0 kk by simp
  have sp: "spacing q = 2 powi (e - int k - 52)"
    unfolding spacing_def il mx ..
  have big: "\<bar>q\<bar> < 2 ^ 1024"
  proof -
    have "(of_int a :: rat) \<le> 2 ^ 53" using a(2) by (rule of_int_le_pow2)
    moreover have "(of_int a :: rat) / 2 ^ k \<le> of_int a"
      using a(1) by (simp add: field_simps mult_le_cancel_left1)
    ultimately show ?thesis by (simp add: absq)
  qed
  have "\<exists>j. q = spacing q * of_int j"
  proof (cases "e \<le> 52")
    case True
    have "e - int k - 52 = - (int k + (52 - e))" by simp
    then have "(2::rat) powi (e - int k - 52) = inverse (2 powi (int k + (52 - e)))"
      by (simp only: power_int_minus)
    also have "\<dots> = inverse (2 ^ k * 2 ^ nat (52 - e))"
    proof -
      have "nat (int k + (52 - e)) = k + nat (52 - e)" using True by (simp add: nat_add_distrib)
      then have "(2::rat) powi (int k + (52 - e)) = 2 ^ (k + nat (52 - e))"
        using True by (simp add: power_int_nonneg_exp)
      then show ?thesis by (simp only: power_add)
    qed
    finally have "2 powi (e - int k - 52) * of_int (n * 2 ^ nat (52 - e)) = (of_int n :: rat) / 2 ^ k"
      by (simp add: field_simps)
    then have "spacing q * of_int (n * 2 ^ nat (52 - e)) = q"
      unfolding sp by (simp only: q_def)
    then show ?thesis by metis
  next
    case False
    then have "53 \<le> e" by simp
    then have "(2::int) ^ 53 \<le> 2 ^ nat e" by (intro power_increasing) simp_all
    then have a53: "a = 2 ^ 53" using ea a by linarith
    then have "2 ^ nat e \<le> (2::int) ^ 53" using ea by simp
    then have "nat e \<le> 53" by (simp only: power_increasing_iff)
    then have e53: "e = 53" using \<open>53 \<le> e\<close> by simp
    have "even a" using a53 by simp
    then have "even n" by (simp add: a_def)
    then have n2: "n = 2 * (n div 2)" by simp
    have "(2::rat) powi (53 - int k - 52) = 2 powi (1 - int k)" by simp
    also have "\<dots> = 2 ^ nat 1 / 2 ^ k" by (rule pow2_diff) simp
    finally have "2 powi (53 - int k - 52) * of_int (n div 2) = (of_int (2 * (n div 2)) :: rat) / 2 ^ k"
      by simp
    moreover have "(of_int (2 * (n div 2)) :: rat) = of_int n"
      by (rule arg_cong[OF n2[symmetric]])
    ultimately have "2 powi (53 - int k - 52) * of_int (n div 2) = (of_int n :: rat) / 2 ^ k"
      by (simp only:)
    then have "spacing q * of_int (n div 2) = q"
      unfolding sp e53 by (simp only: q_def)
    then show ?thesis by metis
  qed
  then obtain j where "q = spacing q * of_int j" ..
  then show ?thesis using big unfolding q_def by (rule round_dbl_exact)
qed

lemma round_dbl_int: "\<bar>n\<bar> \<le> 2 ^ 53 \<Longrightarrow> round_dbl (of_int n) = Fin (of_int n)"
  using round_dbl_dyadic[of n 0] by simp

lemma round_even_bounds: "of_int (round_even x) \<le> x + 1 / 2" "x - 1 / 2 \<le> of_int (round_even x)"
  unfolding round_even_def Let_def by (auto, linarith+)

lemma round_dbl_at:
  assumes "0 < q" "2 powi e \<le> q" "q < 2 powi (e + 1)" "- 1022 \<le> e" "e < 1023"
  shows "round_dbl q = Fin (2 powi (e - 52) * of_int (round_even (q / 2 powi (e - 52))))"
proof -
  have e: "ilog2 \<bar>q\<bar> = e" using assms(1,2,3) by (intro ilog2_unique) simp_all
  have mx: "max e (- 1022) = e" using assms(4) by simp
  have sp: "spacing q = 2 powi (e - 52)" unfolding spacing_def e mx ..
  define s :: rat where "s = 2 powi (e - 52)"
  have s0: "0 < s" by (simp add: s_def)
  have pw: "2 powi (e + 1) = s * 2 ^ 53"
  proof -
    have "e + 1 = (e - 52) + 53" by simp
    then have "(2::rat) powi (e + 1) = 2 powi ((e - 52) + 53)" by (simp only:)
    also have "\<dots> = 2 powi (e - 52) * 2 powi 53" by (rule power_int_add) simp
    finally show ?thesis by (simp add: s_def)
  qed
  then have "q / s < 2 ^ 53" using assms(3) s0 by (simp add: field_simps)
  moreover have "0 < q / s" using assms(1) s0 by simp
  moreover note round_even_bounds[of "q / s"]
  ultimately have "(of_int (round_even (q / s)) :: rat) < of_int (2 ^ 53 + 1)" 
     "(of_int (- 1) :: rat) < of_int (round_even (q / s))"
    by simp_all
  then have "round_even (q / s) < 2 ^ 53 + 1" "- 1 < round_even (q / s)"
    by (simp_all only: of_int_less_iff)
  then have rb: "0 \<le> round_even (q / s)" "round_even (q / s) \<le> 2 ^ 53" by simp_all
  have "(of_int (round_even (q / s)) :: rat) \<le> 2 ^ 53" using rb(2) by (rule of_int_le_pow2)
  then have "s * of_int (round_even (q / s)) \<le> s * 2 ^ 53"
    using s0 by (intro mult_left_mono) simp_all
  also have "\<dots> = 2 powi (e + 1)" using pw by simp
  also have "\<dots> \<le> 2 powi 1023" using assms(5) by (intro power_int_increasing) simp_all
  also have "\<dots> < 2 ^ 1024" by simp
  finally have up: "s * of_int (round_even (q / s)) < 2 ^ 1024" .
  have "0 \<le> s * of_int (round_even (q / s))" using rb(1) s0 by simp
  then have "\<bar>s * of_int (round_even (q / s))\<bar> < 2 ^ 1024" using up by simp
  then have "\<not> 2 ^ 1024 \<le> \<bar>s * of_int (round_even (q / s))\<bar>" by simp
  then show ?thesis using assms(1) unfolding round_dbl_def sp Let_def s_def[symmetric]
    by (simp only: if_False) simp
qed

text \<open>Every finite double is a multiple of \<open>2^-1074\<close>; only numbers below that round to 0.\<close>

lemma min_double_pos: "0 < min_double"
  by (simp only: min_double_def zero_less_power_int zero_less_numeral)

lemma spacing_grid: "\<exists>j. spacing q = 2 ^ j * min_double"
proof -
  define m where "m = max (ilog2 \<bar>q\<bar>) (- 1022) - 52"
  have m: "0 \<le> m + 1074" by (simp add: m_def)
  have "m = (m + 1074) + (- 1074)" by simp
  then have "(2::rat) powi m = 2 powi ((m + 1074) + (- 1074))" by (simp only:)
  also have "\<dots> = 2 powi (m + 1074) * 2 powi (- 1074)" by (rule power_int_add) simp
  also have "2 powi (m + 1074) = (2::rat) ^ nat (m + 1074)" using m by (rule power_int_nonneg_exp)
  finally show ?thesis unfolding spacing_def m_def[symmetric] min_double_def by blast
qed

lemma round_dbl_grid:
  assumes "round_dbl q = Fin r"
  shows "\<exists>j. r = of_int j * min_double"
proof (cases "q = 0")
  case True
  then have "r = of_int 0 * min_double" using assms by (simp add: round_dbl_def)
  then show ?thesis by blast
next
  case False
  define z where "z = round_even (q / spacing q)"
  have "r = spacing q * of_int z"
    using assms False by (simp add: round_dbl_def Let_def z_def split: if_splits)
  moreover obtain j where "spacing q = 2 ^ j * min_double" using spacing_grid by blast
  ultimately have "r = of_int (2 ^ j * z) * min_double" by simp
  then show ?thesis by blast
qed

lemma round_even_0: "round_even x = 0 \<Longrightarrow> \<bar>x\<bar> \<le> 1 / 2"
  using round_even_bounds[of x] by simp

lemma round_dbl_zero:
  assumes "round_dbl q = Fin 0"
  shows "\<bar>q\<bar> < min_double"
proof (cases "q = 0")
  case True
  then show ?thesis using min_double_pos by simp
next
  case False
  define s where "s = spacing q"
  have s0: "0 < s" unfolding s_def by (rule spacing_pos)
  have "s * of_int (round_even (q / s)) = 0"
    using assms False by (simp add: round_dbl_def Let_def s_def split: if_splits)
  then have "round_even (q / s) = 0" using s0 by simp
  then have "\<bar>q / s\<bar> \<le> 1 / 2" by (rule round_even_0)
  then have qs: "\<bar>q\<bar> \<le> s / 2" using s0 by (simp add: field_simps abs_mult)
  define e where "e = ilog2 \<bar>q\<bar>"
  have qpos: "0 < \<bar>q\<bar>" using False by simp
  note il = ilog2_bounds[OF qpos]
  show ?thesis
  proof (cases "- 1022 \<le> e")
    case True
    then have mx: "max e (- 1022) = e" by simp
    have "s = 2 powi (e - 52)" unfolding s_def spacing_def e_def[symmetric] mx ..
    also have "\<dots> = 2 powi e / 2 powi 52" by (rule power_int_diff) simp
    also have "\<dots> \<le> \<bar>q\<bar> / 2 powi 52" using il(1) by (simp add: e_def divide_right_mono)
    finally have "s \<le> \<bar>q\<bar> / 4503599627370496" by simp
    then have "\<bar>q\<bar> \<le> \<bar>q\<bar> / 4503599627370496 / 2" using qs by linarith
    then have False using qpos by simp
    then show ?thesis ..
  next
    case False
    then have mx: "max e (- 1022) = - 1022" by simp
    have "s = 2 powi (- 1022 - 52)" unfolding s_def spacing_def e_def[symmetric] mx ..
    also have "- 1022 - 52 = (- 1074 :: int)" by simp
    finally have "s = min_double" by (simp only: min_double_def)
    then show ?thesis using qs min_double_pos by simp
  qed
qed

lemma doubles_differ:
  assumes "round_dbl a = Fin a" "round_dbl b = Fin b" "a \<noteq> b"
  shows "round_dbl (a - b) \<noteq> Fin 0"
proof
  assume "round_dbl (a - b) = Fin 0"
  then have small: "\<bar>a - b\<bar> < min_double" by (rule round_dbl_zero)
  obtain i j where ij: "a = of_int i * min_double" "b = of_int j * min_double"
    using assms(1,2) round_dbl_grid by blast
  then have "i \<noteq> j" using assms(3) by auto
  then have "1 \<le> \<bar>i - j\<bar>" by simp
  then have "(1::rat) \<le> of_int \<bar>i - j\<bar>" by (metis of_int_1 of_int_le_iff)
  moreover have "\<bar>a - b\<bar> = of_int \<bar>i - j\<bar> * min_double"
    using min_double_pos by (simp add: ij abs_mult flip: left_diff_distrib)
  ultimately have "1 * min_double \<le> \<bar>a - b\<bar>"
    using min_double_pos by (simp only: mult_right_mono less_imp_le)
  then show False using small by simp
qed

lemma round_dbl_not_NaN: "round_dbl q \<noteq> NaN"
  by (simp add: round_dbl_def Let_def)

text \<open>
  Floors of numeral fractions, the small integers as doubles, and sums and differences
  that need no rounding.
\<close>

lemma floor_rat_div_numeral: "\<lfloor>numeral a / numeral b :: rat\<rfloor> = numeral a div numeral b"
  using floor_divide_of_int_eq[of "numeral a" "numeral b", where ?'a = rat] by simp

lemma round_dbl_numeral: "(numeral k :: int) \<le> 2 ^ 53 \<Longrightarrow> round_dbl (numeral k) = Fin (numeral k)"
  using round_dbl_int[of "numeral k"] by simp

lemma round_dbl_neg_numeral: "(numeral k :: int) \<le> 2 ^ 53 \<Longrightarrow> round_dbl (- numeral k) = Fin (- numeral k)"
  using round_dbl_int[of "- numeral k"] by simp

lemma round_dbl_0: "round_dbl 0 = Fin 0"
  by (simp add: round_dbl_def)

lemma round_dbl_1: "round_dbl 1 = Fin 1" "round_dbl (- 1) = Fin (- 1)"
  using round_dbl_int[of 1] round_dbl_int[of "- 1"] by simp_all

lemmas round_dbl_small = round_dbl_numeral round_dbl_neg_numeral round_dbl_0 round_dbl_1

lemma d_sub_dyadic:
  "\<bar>a - b\<bar> \<le> 2 ^ 53 \<Longrightarrow> k \<le> 1022 \<Longrightarrow>
   d_sub (Fin (of_int a / 2 ^ k)) (Fin (of_int b / 2 ^ k)) = Fin (of_int (a - b) / 2 ^ k)"
  using round_dbl_dyadic[of "a - b" k] by (simp add: d_sub_def n_sub_def diff_divide_distrib)

lemma d_add_dyadic:
  "\<bar>a + b\<bar> \<le> 2 ^ 53 \<Longrightarrow> k \<le> 1022 \<Longrightarrow>
   d_add (Fin (of_int a / 2 ^ k)) (Fin (of_int b / 2 ^ k)) = Fin (of_int (a + b) / 2 ^ k)"
  using round_dbl_dyadic[of "a + b" k] by (simp add: d_add_def add_divide_distrib)

lemma d_sub_int:
  "\<bar>a - b\<bar> \<le> 2 ^ 53 \<Longrightarrow> d_sub (Fin (of_int a)) (Fin (of_int b)) = Fin (of_int (a - b))"
  using d_sub_dyadic[of a b 0] by simp

lemma d_add_int:
  "\<bar>a + b\<bar> \<le> 2 ^ 53 \<Longrightarrow> d_add (Fin (of_int a)) (Fin (of_int b)) = Fin (of_int (a + b))"
  using d_add_dyadic[of a b 0] by simp

text \<open>Rounding is symmetric, and a remainder by a greater number is the number itself.\<close>

lemma round_even_minus: "round_even (- x) = - round_even x"
proof (cases "of_int \<lfloor>x\<rfloor> = x")
  case True
  then obtain k where "x = of_int k" by metis
  then have "round_even x = k" "round_even (- x) = - k"
    using round_even_of_int[of k] round_even_of_int[of "- k"] by simp_all
  then show ?thesis by simp
next
  case False
  define f where "f = \<lfloor>x\<rfloor>"
  have lt: "of_int f < x" "x < of_int f + 1" using False unfolding f_def by linarith+
  then have fm: "\<lfloor>- x\<rfloor> = - f - 1" by linarith
  show ?thesis
    unfolding round_even_def Let_def fm f_def[symmetric]
    using lt by (auto simp: algebra_simps)
qed

lemma floor_rat_one_div_numeral: "\<lfloor>1 / numeral b :: rat\<rfloor> = 1 div numeral b"
  using floor_divide_of_int_eq[of 1 "numeral b", where ?'a = rat] by simp

lemma spacing_minus: "spacing (- q) = spacing q"
  by (simp add: spacing_def)

lemma round_dbl_minus: "round_dbl (- q) = n_neg (round_dbl q)"
proof (cases "q = 0")
  case True
  then show ?thesis by (simp add: round_dbl_def)
next
  case False
  have "- q / spacing q = - (q / spacing q)" by simp
  then have "spacing q * of_int (round_even (- q / spacing q)) =
             - (spacing q * of_int (round_even (q / spacing q)))"
    by (simp only: round_even_minus of_int_minus mult_minus_right)
  then show ?thesis
    using False unfolding round_dbl_def spacing_minus Let_def by (auto simp: not_less)
qed

lemma trunc_rat_small: "\<bar>q\<bar> < 1 \<Longrightarrow> trunc_rat q = 0"
  unfolding trunc_rat_def by (cases "0 \<le> q") (simp_all, linarith+)

lemma n_rem_small: "\<bar>a\<bar> < b \<Longrightarrow> n_rem (Fin a) (Fin b) = Fin a"
proof -
  assume h: "\<bar>a\<bar> < b"
  then have b: "0 < b" by simp
  then have "\<bar>a / b\<bar> < 1" using h by simp
  then have "trunc_rat (a / b) = 0" by (rule trunc_rat_small)
  then show ?thesis using b by simp
qed

section \<open>Index arithmetic\<close>

text \<open>
  On integers the remainder \<open>%\<close> is the truncating remainder, and the idiom
  \<open>((a % l) + l) % l\<close> is the non-negative remainder \<open>a mod l\<close>.
\<close>

lemma trunc_rat_of_int_div:
  assumes "0 < l"
  shows "trunc_rat (of_int a / of_int l) = (if 0 \<le> a then a div l else - ((- a) div l))"
proof (cases "0 \<le> a")
  case True
  then have "(0::rat) \<le> of_int a / of_int l" using assms by simp
  then show ?thesis using True by (simp add: trunc_rat_def floor_divide_of_int_eq)
next
  case False
  then have neg: "(of_int a / of_int l :: rat) < 0" using assms by (simp add: divide_neg_pos)
  have "\<lceil>of_int a / of_int l :: rat\<rceil> = - \<lfloor>- (of_int a / of_int l :: rat)\<rfloor>"
    by (simp add: ceiling_def)
  also have "- (of_int a / of_int l :: rat) = of_int (- a) / of_int l" by simp
  also have "\<lfloor>of_int (- a) / of_int l :: rat\<rfloor> = (- a) div l" by (rule floor_divide_of_int_eq)
  finally show ?thesis using False neg by (simp add: trunc_rat_def)
qed

lemma n_rem_of_int:
  assumes "0 < l"
  shows "n_rem (Fin (of_int a)) (Fin (of_int l)) =
         Fin (of_int (if 0 \<le> a then a mod l else - ((- a) mod l)))"
proof -
  have "a - l * (if 0 \<le> a then a div l else - ((- a) div l)) =
        (if 0 \<le> a then a mod l else - ((- a) mod l))"
    by (simp add: minus_mult_div_eq_mod algebra_simps) (metis minus_mult_div_eq_mod add.commute diff_minus_eq_add minus_diff_eq)
  then show ?thesis using assms
    by (simp add: trunc_rat_of_int_div del: of_int_diff of_int_mult flip: of_int_mult of_int_diff)
qed

lemma euclid_index:
  assumes "0 < l"
  shows "n_rem (n_add (n_rem (Fin (of_int a)) (Fin (of_int l))) (Fin (of_int l))) (Fin (of_int l)) =
         Fin (of_int (a mod l))"
proof -
  define r where "r = (if 0 \<le> a then a mod l else - ((- a) mod l))"
  have r_bounds: "- l < r" "r < l"
  proof -
    note b = pos_mod_sign[OF assms, of a] pos_mod_bound[OF assms, of a]
      pos_mod_sign[OF assms, of "- a"] pos_mod_bound[OF assms, of "- a"]
    have "r = a mod l \<or> r = - ((- a) mod l)" by (simp add: r_def)
    then show "- l < r" "r < l" using b assms by linarith+
  qed
  have "(- ((- a) mod l)) mod l = (- (- a)) mod l" by (rule mod_minus_eq)
  then have "r mod l = a mod l" by (simp add: r_def)
  then have r_cong: "(r + l) mod l = a mod l" by simp
  have nonneg: "0 \<le> r + l" using r_bounds by simp
  have "n_rem (Fin (of_int a)) (Fin (of_int l)) = Fin (of_int r)"
    unfolding r_def by (rule n_rem_of_int[OF assms])
  then have "n_rem (n_add (n_rem (Fin (of_int a)) (Fin (of_int l))) (Fin (of_int l))) (Fin (of_int l))
      = n_rem (Fin (of_int (r + l))) (Fin (of_int l))" by simp
  also have "\<dots> = Fin (of_int ((r + l) mod l))"
    using assms nonneg by (simp only: n_rem_of_int if_True)
  finally show ?thesis by (simp only: r_cong)
qed

lemma rotate_index_int:
  assumes "0 < l"
  shows "rotate_index l (Fin (of_int r)) i = Fin (of_int ((int i - r) mod int l))"
proof -
  have "n_sub (n_nat i) (Fin (of_int r)) = Fin (of_int (int i - r))"
    by (simp add: n_sub_def)
  moreover have "n_nat l = Fin (of_int (int l))" by simp
  ultimately show ?thesis
    unfolding rotate_index_def using euclid_index[of "int l" "int i - r"] assms by simp
qed

lemma js_get_int:
  "0 \<le> k \<Longrightarrow> nat k < length xs \<Longrightarrow> js_get xs (Fin (of_int k)) = xs ! nat k"
  by simp

lemma rotate_js_int:
  "rotate_js (Arr xs) (Fin (of_int r)) =
     map (\<lambda>i. xs ! nat ((int i - r) mod int (length xs))) [0..<length xs]"
proof (cases "xs = []")
  case True
  then show ?thesis by (simp add: rotate_js_def dflt_def)
next
  case False
  then have l: "0 < length xs" by simp
  have "js_get xs (rotate_index (length xs) (Fin (of_int r)) i) = xs ! nat ((int i - r) mod int (length xs))" for i
  proof -
    have "0 \<le> (int i - r) mod int (length xs)" "nat ((int i - r) mod int (length xs)) < length xs"
      using l by (simp_all add: nat_less_iff)
    then show ?thesis using l by (simp only: rotate_index_int js_get_int)
  qed
  then show ?thesis by (simp add: rotate_js_def dflt_def)
qed

lemma length_rotate_js_int: "length (rotate_js (Arr xs) (Fin (of_int r))) = length xs"
  by (simp add: rotate_js_int)

lemma nth_rotate_js_int:
  assumes "i < length xs"
  shows "rotate_js (Arr xs) (Fin (of_int r)) ! i = xs ! nat ((int i - r) mod int (length xs))"
  using assms by (simp add: rotate_js_int)

lemma rotate_js_inverse: "rotate_js (Arr (rotate_js (Arr xs) (Fin (of_int n)))) (Fin (of_int (- n))) = xs"
proof (rule nth_equalityI)
  show "length (rotate_js (Arr (rotate_js (Arr xs) (Fin (of_int n)))) (Fin (of_int (- n)))) = length xs"
    by (simp only: length_rotate_js_int)
next
  fix i
  assume "i < length (rotate_js (Arr (rotate_js (Arr xs) (Fin (of_int n)))) (Fin (of_int (- n))))"
  then have i: "i < length xs" by (simp only: length_rotate_js_int)
  then have l: "0 < int (length xs)" by (cases xs) simp_all
  define l where "l = int (length xs)"
  define j where "j = (int i - (- n)) mod l"
  have j: "0 \<le> j" "j < l" using l by (simp_all add: j_def l_def)
  then have jn: "nat j < length xs" by (simp add: l_def nat_less_iff)
  have "(j - n) mod l = (int i - (- n) - n) mod l"
    unfolding j_def by (rule mod_diff_left_eq)
  also have "\<dots> = int i" using i by (simp add: l_def)
  finally have jback: "(j - n) mod l = int i" .
  have "rotate_js (Arr (rotate_js (Arr xs) (Fin (of_int n)))) (Fin (of_int (- n))) ! i
      = rotate_js (Arr xs) (Fin (of_int n)) ! nat j"
    using i by (simp only: nth_rotate_js_int length_rotate_js_int j_def l_def)
  also have "\<dots> = xs ! nat ((int (nat j) - n) mod l)"
    using jn by (simp only: nth_rotate_js_int l_def)
  also have "\<dots> = xs ! i" using j jback by simp
  finally show "rotate_js (Arr (rotate_js (Arr xs) (Fin (of_int n)))) (Fin (of_int (- n))) ! i = xs ! i" .
qed

lemma rotate_js_full_turn: "rotate_js (Arr xs) (Fin (of_int (int (length xs)))) = xs"
proof -
  have "rotate_js (Arr xs) (Fin (of_int (int (length xs)))) =
        map (\<lambda>i. xs ! nat ((int i - int (length xs)) mod int (length xs))) [0..<length xs]"
    by (rule rotate_js_int)
  also have "\<dots> = map (\<lambda>i. xs ! i) [0..<length xs]"
    by (rule map_cong) simp_all
  also have "\<dots> = xs" by (rule map_nth)
  finally show ?thesis .
qed

text \<open>
  With the rounded index: whatever integer the rounded difference \<open>i - r\<close> is, the
  element read is the one at its non-negative remainder by the length; while
  \<open>|r| + l \<le> 2^53\<close> the difference is exact and \<open>rotate_dbl\<close> is \<open>rotate_js\<close>.
\<close>

lemma n_rem_int_bounds:
  assumes "0 < l"
  shows "\<exists>t. n_rem (Fin (of_int a)) (Fin (of_int l)) = Fin (of_int t) \<and> - l < t \<and> t < l"
proof -
  define t where "t = (if 0 \<le> a then a mod l else - ((- a) mod l))"
  note b = pos_mod_sign[OF assms, of a] pos_mod_bound[OF assms, of a]
    pos_mod_sign[OF assms, of "- a"] pos_mod_bound[OF assms, of "- a"]
  have "t = a mod l \<or> t = - ((- a) mod l)" by (simp add: t_def)
  then have "- l < t" "t < l" using b assms by linarith+
  moreover have "n_rem (Fin (of_int a)) (Fin (of_int l)) = Fin (of_int t)"
    unfolding t_def by (rule n_rem_of_int[OF assms])
  ultimately show ?thesis by blast
qed

lemma nat_less_pow2: "(l::nat) < 2 ^ k \<Longrightarrow> int l < 2 ^ k"
  by (metis of_nat_less_iff of_nat_numeral of_nat_power)

lemma rotate_index_dbl_via:
  assumes "0 < l" "l < 2 ^ 32" "d_sub (n_nat i) r = Fin (of_int a)"
  shows "rotate_index_dbl l r i = Fin (of_int (a mod int l))"
proof -
  have l: "0 < int l" using assms(1) by simp
  obtain t where t: "n_rem (Fin (of_int a)) (Fin (of_int (int l))) = Fin (of_int t)"
    and tb: "- int l < t" "t < int l"
    using n_rem_int_bounds[OF l, of a] by blast
  have "int l < 2 ^ 32" using assms(2) by (rule nat_less_pow2)
  then have "\<bar>t + int l\<bar> \<le> 2 ^ 53" using tb by simp
  then have "d_add (Fin (of_int t)) (Fin (of_int (int l))) = Fin (of_int (t + int l))"
    by (rule d_add_int)
  then have a: "d_add (n_rem (Fin (of_int a)) (Fin (of_int (int l)))) (Fin (of_int (int l))) =
             n_add (n_rem (Fin (of_int a)) (Fin (of_int (int l)))) (Fin (of_int (int l)))"
    unfolding t by (simp only: n_add.simps of_int_add)
  have nl: "n_nat l = Fin (of_int (int l))" by simp
  show ?thesis
    unfolding rotate_index_dbl_def assms(3) nl a by (rule euclid_index[OF l])
qed

lemma rotate_dbl_via:
  assumes "length xs < 2 ^ 32" "\<forall>i < length xs. d_sub (n_nat i) r = Fin (of_int (f i))"
  shows "rotate_dbl (Arr xs) r = map (\<lambda>i. xs ! nat (f i mod int (length xs))) [0..<length xs]"
proof -
  have "js_get xs (rotate_index_dbl (length xs) r i) = xs ! nat (f i mod int (length xs))"
    if i: "i < length xs" for i
  proof -
    have l: "0 < length xs" using i by (cases xs) simp_all
    have "d_sub (n_nat i) r = Fin (of_int (f i))" using assms(2) i by blast
    then have "rotate_index_dbl (length xs) r i = Fin (of_int (f i mod int (length xs)))"
      by (rule rotate_index_dbl_via[OF l assms(1)])
    moreover have "0 \<le> f i mod int (length xs)" "nat (f i mod int (length xs)) < length xs"
      using l by (simp_all add: nat_less_iff)
    ultimately show ?thesis by (simp only: js_get_int)
  qed
  then show ?thesis by (simp add: rotate_dbl_def dflt_def)
qed

lemma rotate_dbl_exact:
  assumes "length xs < 2 ^ 32" "\<bar>r\<bar> + int (length xs) \<le> 2 ^ 53"
  shows "rotate_dbl (Arr xs) (Fin (of_int r)) = rotate_js (Arr xs) (Fin (of_int r))"
proof -
  have "d_sub (n_nat i) (Fin (of_int r)) = Fin (of_int (int i - r))" if "i < length xs" for i
  proof -
    have "\<bar>int i - r\<bar> \<le> 2 ^ 53" using assms(2) that by linarith
    then show ?thesis using d_sub_int[of "int i" r] by simp
  qed
  then have "rotate_dbl (Arr xs) (Fin (of_int r)) =
             map (\<lambda>i. xs ! nat ((int i - r) mod int (length xs))) [0..<length xs]"
    by (intro rotate_dbl_via[OF assms(1)]) blast
  then show ?thesis by (simp only: rotate_js_int)
qed

lemma rotate_dbl_single:
  assumes "round_dbl (of_int n) = Fin (of_int n)"
  shows "rotate_dbl (Arr [x]) (Fin (of_int n)) = [x]"
proof -
  have "round_dbl (- of_int n) = Fin (of_int (- n))"
    unfolding round_dbl_minus assms by simp
  then have "\<forall>i < length [x]. d_sub (n_nat i) (Fin (of_int n)) = Fin (of_int (- n))"
    by (simp add: d_sub_def n_sub_def)
  then have "rotate_dbl (Arr [x]) (Fin (of_int n)) =
             map (\<lambda>i. [x] ! nat ((- n) mod int (length [x]))) [0..<length [x]]"
    by (intro rotate_dbl_via) simp_all
  then show ?thesis by simp
qed

lemma round_dbl_tie_2_53: "round_dbl (2 ^ 53 + 1) = Fin (2 ^ 53)"
  using round_dbl_at[of "2 ^ 53 + 1" 53] by (simp add: round_even_def floor_rat_div_numeral)

lemma round_dbl_2_53_2: "round_dbl (2 ^ 53 + 2) = Fin (2 ^ 53 + 2)"
  using round_dbl_at[of "2 ^ 53 + 2" 53] by (simp add: round_even_def floor_rat_div_numeral)


text \<open>
  Claim C8, as amended. For every array of a length \<open>L\<close> below \<open>2^32\<close> (as every
  array has) and every integer \<open>n\<close> with \<open>|n| + L \<le> 2^53\<close>, rotating by \<open>n\<close> and then by
  \<open>-n\<close> gives back the array; rotation keeps the length and is a cyclic shift: element
  \<open>i\<close> of \<open>rotate(seq, n)\<close> is \<open>seq[((i - n) mod L + L) mod L]\<close>, the non-negative
  remainder of \<open>i - n\<close> by \<open>L\<close>; and rotation by \<open>L\<close> is the identity.
\<close>

theorem rotate_cyclic_shift:
  assumes "length xs < 2 ^ 32" and "\<bar>n\<bar> + int (length xs) \<le> 2 ^ 53"
  shows "rotate_dbl (Arr (rotate_dbl (Arr xs) (Fin (of_int n)))) (Fin (of_int (- n))) = xs
   \<and> length (rotate_dbl (Arr xs) (Fin (of_int n))) = length xs
   \<and> (\<forall>i < length xs.
        rotate_dbl (Arr xs) (Fin (of_int n)) ! i = xs ! nat ((int i - n) mod int (length xs)))
   \<and> rotate_dbl (Arr xs) (Fin (of_int (int (length xs)))) = xs"
proof -
  have e: "rotate_dbl (Arr xs) (Fin (of_int n)) = rotate_js (Arr xs) (Fin (of_int n))"
    using assms by (rule rotate_dbl_exact)
  have len: "length (rotate_js (Arr xs) (Fin (of_int n))) = length xs"
    by (rule length_rotate_js_int)
  have "\<bar>- n\<bar> + int (length (rotate_js (Arr xs) (Fin (of_int n)))) \<le> 2 ^ 53"
    using assms(2) by (simp add: len)
  then have b: "rotate_dbl (Arr (rotate_js (Arr xs) (Fin (of_int n)))) (Fin (of_int (- n))) =
             rotate_js (Arr (rotate_js (Arr xs) (Fin (of_int n)))) (Fin (of_int (- n)))"
    using assms(1) by (intro rotate_dbl_exact) (simp_all only: len)
  have "int (length xs) < 2 ^ 32" using assms(1) by (rule nat_less_pow2)
  then have "\<bar>int (length xs)\<bar> + int (length xs) \<le> 2 ^ 53" by simp
  then have f: "rotate_dbl (Arr xs) (Fin (of_int (int (length xs)))) =
             rotate_js (Arr xs) (Fin (of_int (int (length xs))))"
    using assms(1) by (intro rotate_dbl_exact)
  show ?thesis
    unfolding e b f
    using rotate_js_inverse length_rotate_js_int nth_rotate_js_int rotate_js_full_turn by blast
qed

theorem rotate_cyclic_shift_witness:
  "length [Num (Fin 1), Num (Fin 2), Num (Fin 3)] < 2 ^ 32
   \<and> \<bar>1\<bar> + int (length [Num (Fin 1), Num (Fin 2), Num (Fin 3)]) \<le> 2 ^ 53
   \<and> rotate_dbl (Arr (rotate_dbl (Arr [Num (Fin 1), Num (Fin 2), Num (Fin 3)]) (Fin (of_int 1))))
       (Fin (of_int (- 1))) = [Num (Fin 1), Num (Fin 2), Num (Fin 3)]
   \<and> (0::nat) < length [Num (Fin 1), Num (Fin 2), Num (Fin 3)]
   \<and> rotate_dbl (Arr [Num (Fin 1), Num (Fin 2), Num (Fin 3)]) (Fin (of_int 1)) ! 0 = Num (Fin 3)"
proof -
  have h1: "length [Num (Fin 1), Num (Fin 2), Num (Fin 3)] < 2 ^ 32" by simp
  have h2: "\<bar>1\<bar> + int (length [Num (Fin 1), Num (Fin 2), Num (Fin 3)]) \<le> 2 ^ 53" by simp
  from rotate_cyclic_shift[OF h1 h2] h1 h2 show ?thesis by simp
qed

text \<open>
  Claim C8 as stated, for every integer \<open>n\<close>, fails beyond that bound, where \<open>i - n\<close>
  is rounded: rotating \<open>[1, 2, 3]\<close> by \<open>2^53\<close> gives \<open>[2, 3, 1]\<close>, and rotating that by
  \<open>-2^53\<close> computes \<open>1 + 2^53\<close> as \<open>2^53\<close> and reads position 2 twice: the result is
  \<open>[1, 1, 3]\<close>.
\<close>

theorem rotate_large_count:
  "rotate_dbl (Arr (rotate_dbl (Arr [Num (Fin 1), Num (Fin 2), Num (Fin 3)]) (Fin (2 ^ 53))))
     (Fin (- (2 ^ 53))) = [Num (Fin 1), Num (Fin 1), Num (Fin 3)]"
proof -
  have "\<forall>i < length [Num (Fin 1), Num (Fin 2), Num (Fin 3)].
          d_sub (n_nat i) (Fin (2 ^ 53)) = Fin (of_int (int i - 2 ^ 53))"
    by (simp add: All_less_Suc d_sub_def n_sub_def round_dbl_small)
  then have first: "rotate_dbl (Arr [Num (Fin 1), Num (Fin 2), Num (Fin 3)]) (Fin (2 ^ 53)) =
        [Num (Fin 2), Num (Fin 3), Num (Fin 1)]"
    by (subst rotate_dbl_via[where f = "\<lambda>i. int i - 2 ^ 53"]) simp_all
  have "\<forall>i < length [Num (Fin 2), Num (Fin 3), Num (Fin 1)].
          d_sub (n_nat i) (Fin (- (2 ^ 53))) = Fin (of_int (if i = 1 then 2 ^ 53 else int i + 2 ^ 53))"
    using round_dbl_tie_2_53 round_dbl_2_53_2
    by (simp add: All_less_Suc d_sub_def n_sub_def round_dbl_small)
  then have "rotate_dbl (Arr [Num (Fin 2), Num (Fin 3), Num (Fin 1)]) (Fin (- (2 ^ 53))) =
        [Num (Fin 1), Num (Fin 1), Num (Fin 3)]"
    by (subst rotate_dbl_via[where f = "\<lambda>i. if i = 1 then 2 ^ 53 else int i + 2 ^ 53"]) simp_all
  then show ?thesis by (simp only: first)
qed


section \<open>The broadcasting engine on two arrays\<close>

lemma n_rem_nat:
  assumes "0 < l"
  shows "n_rem (n_nat i) (n_nat l) = n_nat (i mod l)"
proof -
  have "0 < int l" using assms by simp
  then have "n_rem (Fin (of_int (int i))) (Fin (of_int (int l))) =
        Fin (of_int (if 0 \<le> int i then int i mod int l else - ((- int i) mod int l)))"
    by (rule n_rem_of_int)
  then have "n_rem (Fin (of_int (int i))) (Fin (of_int (int l))) = Fin (of_int (int (i mod l)))"
    by (simp only: of_nat_0_le_iff if_True zmod_int)
  then show ?thesis by (simp only: of_int_of_nat_eq)
qed

lemma js_get_nat: "i < length xs \<Longrightarrow> js_get xs (n_nat i) = xs ! i"
  by simp

lemma arrayCalc_arrays:
  assumes "left \<noteq> []" "right \<noteq> []"
  shows "arrayCalc (Arr left) (Arr right) operation =
         Arr (map (\<lambda>i. operation (left ! (i mod length left)) (right ! (i mod length right)))
                  [0..<max (length left) (length right)])"
proof -
  have l: "0 < length left" and r: "0 < length right" using assms by simp_all
  have "fromArray (Arr left) (n_rem (n_nat i) (n_nat (length left))) = left ! (i mod length left)" for i
    using l by (simp only: n_rem_nat fromArray_def jsval.case js_get_nat mod_less_divisor)
  moreover have "fromArray (Arr right) (n_rem (n_nat i) (n_nat (length right))) = right ! (i mod length right)" for i
    using r by (simp only: n_rem_nat fromArray_def jsval.case js_get_nat mod_less_divisor)
  ultimately show ?thesis by (simp add: toArray_def)
qed

lemma arrayCalc_arrays_length:
  "length_js (arrayCalc a (Arr right) operation) = max (length (toArray a)) (length right)"
  by (simp add: length_js_def Let_def)

lemma js_plus_Num: "js_plus (Num x) (Num y) = Num (n_add x y)"
  by (simp add: js_plus_def to_primitive_def is_Str_def)


text \<open>
  Claim C5. For flat numeric arrays \<open>a\<close> and \<open>b\<close> the sum \<open>add(a, b)\<close> has the length
  of the longer array, and (both arrays holding at least one number) element \<open>i\<close> is
  \<open>a[i mod length a] + b[i mod length b]\<close>: the shorter operand is reused cyclically.
  In particular \<open>add([1,2,3,4], [1,2,3])\<close> is \<open>[2,4,6,5]\<close>.
\<close>

theorem add_flat_broadcast:
  "length_js (add_js (Arr (map Num xs)) (Arr (map Num ys))) = max (length xs) (length ys)
   \<and> (xs \<noteq> [] \<and> ys \<noteq> [] \<longrightarrow>
        add_js (Arr (map Num xs)) (Arr (map Num ys)) =
        Arr (map (\<lambda>i. Num (n_add (xs ! (i mod length xs)) (ys ! (i mod length ys))))
                 [0..<max (length xs) (length ys)]))
   \<and> add_js (Arr [Num (Fin 1), Num (Fin 2), Num (Fin 3), Num (Fin 4)])
             (Arr [Num (Fin 1), Num (Fin 2), Num (Fin 3)])
       = Arr [Num (Fin 2), Num (Fin 4), Num (Fin 6), Num (Fin 5)]"
proof (intro conjI impI)
  show "length_js (add_js (Arr (map Num xs)) (Arr (map Num ys))) = max (length xs) (length ys)"
    by (simp add: add_js_def dflt_def arrayCalc_arrays_length toArray_def del: arrayCalc.simps)
next
  assume ne: "xs \<noteq> [] \<and> ys \<noteq> []"
  then have "map Num xs \<noteq> []" "map Num ys \<noteq> []" by simp_all
  then have "arrayCalc (Arr (map Num xs)) (Arr (map Num ys)) js_plus =
      Arr (map (\<lambda>i. js_plus (map Num xs ! (i mod length (map Num xs))) (map Num ys ! (i mod length (map Num ys))))
               [0..<max (length (map Num xs)) (length (map Num ys))])"
    by (rule arrayCalc_arrays)
  also have "\<dots> = Arr (map (\<lambda>i. Num (n_add (xs ! (i mod length xs)) (ys ! (i mod length ys))))
                 [0..<max (length xs) (length ys)])"
    using ne by (simp add: js_plus_Num)
  finally show "add_js (Arr (map Num xs)) (Arr (map Num ys)) =
        Arr (map (\<lambda>i. Num (n_add (xs ! (i mod length xs)) (ys ! (i mod length ys))))
                 [0..<max (length xs) (length ys)])"
    by (simp add: add_js_def dflt_def)
next
  show "add_js (Arr [Num (Fin 1), Num (Fin 2), Num (Fin 3), Num (Fin 4)])
             (Arr [Num (Fin 1), Num (Fin 2), Num (Fin 3)])
       = Arr [Num (Fin 2), Num (Fin 4), Num (Fin 6), Num (Fin 5)]"
    by code_simp
qed

theorem add_flat_broadcast_witness:
  "[Fin 1, Fin 2, Fin 3, Fin 4] \<noteq> [] \<and> [Fin 10, Fin 20] \<noteq> []
   \<and> add_js (Arr (map Num [Fin 1, Fin 2, Fin 3, Fin 4])) (Arr (map Num [Fin 10, Fin 20]))
       = Arr [Num (Fin 11), Num (Fin 22), Num (Fin 13), Num (Fin 24)]"
proof -
  have ne: "[Fin 1, Fin 2, Fin 3, Fin 4] \<noteq> [] \<and> [Fin 10, Fin 20] \<noteq> []" by simp
  have val: "Arr (map (\<lambda>i. Num (n_add ([Fin 1, Fin 2, Fin 3, Fin 4] ! (i mod length [Fin 1, Fin 2, Fin 3, Fin 4]))
                                       ([Fin 10, Fin 20] ! (i mod length [Fin 10, Fin 20]))))
                 [0..<max (length [Fin 1, Fin 2, Fin 3, Fin 4]) (length [Fin 10, Fin 20])])
        = Arr [Num (Fin 11), Num (Fin 22), Num (Fin 13), Num (Fin 24)]"
    by code_simp
  from add_flat_broadcast[of "[Fin 1, Fin 2, Fin 3, Fin 4]" "[Fin 10, Fin 20]"] ne
  have "add_js (Arr (map Num [Fin 1, Fin 2, Fin 3, Fin 4])) (Arr (map Num [Fin 10, Fin 20])) =
        Arr (map (\<lambda>i. Num (n_add ([Fin 1, Fin 2, Fin 3, Fin 4] ! (i mod length [Fin 1, Fin 2, Fin 3, Fin 4]))
                                       ([Fin 10, Fin 20] ! (i mod length [Fin 10, Fin 20]))))
                 [0..<max (length [Fin 1, Fin 2, Fin 3, Fin 4]) (length [Fin 10, Fin 20])])"
    by blast
  with ne val show ?thesis by (simp only: simp_thms)
qed


text \<open>
  When the right operand is an array, \<open>arrayCalc\<close> hands the paired elements to the
  operation as they are, nested arrays included; it does not call itself on them.
\<close>

lemma arrayCalc_applies_operation_to_elements:
  "arrayCalc (Arr [a0, Arr as]) (Arr [b0, Arr bs]) operation =
   Arr [operation a0 b0, operation (Arr as) (Arr bs)]"
proof -
  have "[0..<max (length [a0, Arr as]) (length [b0, Arr bs])] = [0, 1]"
    by (simp add: numeral_2_eq_2)
  moreover have "arrayCalc (Arr [a0, Arr as]) (Arr [b0, Arr bs]) operation =
      Arr (map (\<lambda>i. operation ([a0, Arr as] ! (i mod length [a0, Arr as]))
                                 ([b0, Arr bs] ! (i mod length [b0, Arr bs])))
               [0..<max (length [a0, Arr as]) (length [b0, Arr bs])])"
    by (rule arrayCalc_arrays) simp_all
  ultimately show ?thesis by simp
qed


text \<open>
  Claim C1. With a nested array at index 1 of both operands, the pairing at that index
  should be computed recursively: \<open>add([1, [2, 3]], [10, [20, 30, 40]])\<close> should be
  \<open>[11, [22, 33, 42]]\<close>. The function applies \<open>+\<close> to the two nested arrays themselves,
  which concatenates their texts: the result is \<open>[11, "2,320,30,40"]\<close>.
\<close>

theorem add_nested_right_operand:
  "add_js (Arr [Num (Fin 1), Arr [Num (Fin 2), Num (Fin 3)]])
          (Arr [Num (Fin 10), Arr [Num (Fin 20), Num (Fin 30), Num (Fin 40)]])
   = Arr [Num (Fin 11), Str ''2,320,30,40'']"
  by code_simp


section \<open>duplicate\<close>

text \<open>
  The slots of \<open>Array(n)\<close> are all holes, so \<open>flatMap\<close> never calls its callback:
  whenever \<open>duplicate\<close> returns, it returns the empty array.
\<close>

lemma duplicate_never_copies: "duplicate arr n = Inr [] \<or> duplicate arr n = Inl RangeError"
  by (cases "math_max2 (Fin 1) n") (simp_all add: duplicate_def array_ctor_def flatMap_def)


text \<open>
  Claim C2. \<open>duplicate(a, n)\<close> should return \<open>n\<close> concatenated copies of \<open>a\<close>, so that
  \<open>duplicate([0, 7, 12], 3)\<close> is \<open>[0, 7, 12, 0, 7, 12, 0, 7, 12]\<close>. The function
  returns the empty array there.
\<close>

theorem duplicate_three_times:
  "duplicate (Arr [Num (Fin 0), Num (Fin 7), Num (Fin 12)]) (Fin 3) = Inr []"
  by code_simp


section \<open>stretch\<close>

text \<open>
  For a length that is not below 2, the loop bound is \<open>length(len) = 1\<close>, the single
  position is \<open>0 / 0\<close>, both neighbours are read at \<open>NaN\<close>, and the result is \<open>[NaN]\<close>.
\<close>

lemma stretch_long:
  assumes "\<not> n_lt len (Fin 2)"
  shows "stretch a len mode = [Num NaN]"
proof -
  define a' where "a' = toArray (dflt (Arr [Num (Fin 0)]) a)"
  have len: "length_js (Num len) = 1" by (simp add: length_js_def)
  have val: "n_mul (n_div (Fin 0) (n_sub (Fin 1) (Fin 1))) x = NaN" for x
    by (simp add: n_sub_def inf_of_sign_def)
  have mx: "math_max2 NaN y = NaN" "math_min2 NaN y = NaN" for y
    by (simp_all add: math_max2_def math_min2_def)
  have l: "lerp_call4 Undefined Undefined NaN mode = Num NaN"
    by (simp add: lerp_call4_def lerp_def dflt_def num_op_def n_sub_def)
  show ?thesis
    unfolding stretch_def Let_def a'_def[symmetric] len
    using assms by (simp add: val mx l)
qed


text \<open>
  Claim C10. \<open>stretch(a, len, mode)\<close> returns the same result for every interpolation
  mode: the mode only reaches \<open>lerp\<close> as a surplus fourth argument.
\<close>

theorem stretch_ignores_mode: "stretch a len mode = stretch a len mode'"
  unfolding stretch_def lerp_call4_def by (rule refl)

theorem stretch_ignores_mode_witness:
  "stretch (Arr [Num (Fin 0), Num (Fin 10)]) (Fin 5) ''linear''
   = stretch (Arr [Num (Fin 0), Num (Fin 10)]) (Fin 5) ''cubic''"
  by (rule stretch_ignores_mode)

section \<open>wrap\<close>










section \<open>normalize\<close>

text \<open>
  With a scalar right operand the engine recurses down to the leaves, so \<open>subtract\<close> and
  \<open>divide\<close> by a number map over every leaf. On a sequence of doubles \<open>minimum\<close> and
  \<open>maximum\<close> are the least and the greatest leaf, at whatever depth they stand, and
  the difference of two different doubles is not rounded to 0. A sequence without a
  leaf is returned as it is.
\<close>

lemma arrayCalc_scalar: "arrayCalc a (Num b) (num_op g) = map_leaves (\<lambda>x. g x b) a"
  by (induction a) (simp_all add: num_op_def)

lemma map_leaves_comp: "map_leaves f (map_leaves g a) = map_leaves (\<lambda>x. f (g x)) a"
  by (induction a) simp_all

lemma map_leaves_cong_leaves:
  "(\<And>v. v \<in> set (leaves a) \<Longrightarrow> f (to_number v) = g (to_number v)) \<Longrightarrow> map_leaves f a = map_leaves g a"
  by (induction a) auto

lemma doubles_leaves: "doubles a \<Longrightarrow> v \<in> set (leaves a) \<Longrightarrow> \<exists>q. v = Num (Fin q) \<and> round_dbl q = Fin q"
proof (induction a arbitrary: v)
  case (Num x)
  then show ?case by (cases x) simp_all
next
  case (Arr xs)
  then show ?case by (auto simp: list_all_iff)
qed simp_all

lemma leaves_of_values:
  assumes "\<And>v. v \<in> set vs \<Longrightarrow> \<exists>q. v = Num (Fin q)"
  shows "vs = map (\<lambda>q. Num (Fin q)) (concat (map (\<lambda>v. case v of Num (Fin q) \<Rightarrow> [q] | _ \<Rightarrow> []) vs))"
  using assms
proof (induction vs)
  case Nil
  then show ?case by simp
next
  case (Cons v vs)
  then obtain q where "v = Num (Fin q)" by auto
  moreover have "vs = map (\<lambda>q. Num (Fin q)) (concat (map (\<lambda>v. case v of Num (Fin q) \<Rightarrow> [q] | _ \<Rightarrow> []) vs))"
    using Cons by simp
  ultimately show ?case by simp
qed

lemma doubles_leaf_values: "doubles a \<Longrightarrow> leaves a = map (\<lambda>q. Num (Fin q)) (leaf_values a)"
  unfolding leaf_values_def using doubles_leaves by (intro leaves_of_values) blast

lemma math_min_values:
  "qs \<noteq> [] \<Longrightarrow> math_min (map (\<lambda>q. Num (Fin q)) qs) = Fin (Min (set qs))"
proof (induction qs)
  case Nil
  then show ?case by simp
next
  case (Cons q qs)
  show ?case
  proof (cases "qs = []")
    case True
    then show ?thesis by (simp add: math_min2_def)
  next
    case False
    then have "math_min (map (\<lambda>q. Num (Fin q)) qs) = Fin (Min (set qs))" by (rule Cons.IH)
    then have "math_min (map (\<lambda>q. Num (Fin q)) (q # qs)) = Fin (min q (Min (set qs)))"
      by (auto simp: math_min2_def min_def)
    moreover have "Min (set (q # qs)) = min q (Min (set qs))"
      using False by (simp only: list.set(2)) (rule Min_insert, simp_all)
    ultimately show ?thesis by (simp only:)
  qed
qed

lemma math_max_values:
  "qs \<noteq> [] \<Longrightarrow> math_max (map (\<lambda>q. Num (Fin q)) qs) = Fin (Max (set qs))"
proof (induction qs)
  case Nil
  then show ?case by simp
next
  case (Cons q qs)
  show ?case
  proof (cases "qs = []")
    case True
    then show ?thesis by (simp add: math_max2_def)
  next
    case False
    then have "math_max (map (\<lambda>q. Num (Fin q)) qs) = Fin (Max (set qs))" by (rule Cons.IH)
    then have "math_max (map (\<lambda>q. Num (Fin q)) (q # qs)) = Fin (max q (Max (set qs)))"
      by (auto simp: math_max2_def max_def)
    moreover have "Max (set (q # qs)) = max q (Max (set qs))"
      using False by (simp only: list.set(2)) (rule Max_insert, simp_all)
    ultimately show ?thesis by (simp only:)
  qed
qed

lemma minimum_Arr: "minimum (Arr xs) = Num (math_min (leaves (Arr xs)))"
  by (simp add: minimum_def dflt_def flatten_js_def toArray_def)

lemma maximum_Arr: "maximum (Arr xs) = Num (math_max (leaves (Arr xs)))"
  by (simp add: maximum_def dflt_def flatten_js_def toArray_def)

lemma minimum_least:
  assumes "doubles (Arr xs)" "least_leaf (Arr xs) mn"
  shows "minimum (Arr xs) = Num (Fin mn)"
proof -
  have ne: "leaf_values (Arr xs) \<noteq> []" using assms(2) by (auto simp: least_leaf_def)
  have "Min (set (leaf_values (Arr xs))) = mn"
    using assms(2) by (intro Min_eqI) (simp_all add: least_leaf_def)
  then show ?thesis
    unfolding minimum_Arr doubles_leaf_values[OF assms(1)] math_min_values[OF ne] by simp
qed

lemma maximum_greatest:
  assumes "doubles (Arr xs)" "greatest_leaf (Arr xs) mx"
  shows "maximum (Arr xs) = Num (Fin mx)"
proof -
  have ne: "leaf_values (Arr xs) \<noteq> []" using assms(2) by (auto simp: greatest_leaf_def)
  have "Max (set (leaf_values (Arr xs))) = mx"
    using assms(2) by (intro Max_eqI) (simp_all add: greatest_leaf_def)
  then show ?thesis
    unfolding maximum_Arr doubles_leaf_values[OF assms(1)] math_max_values[OF ne] by simp
qed

lemma subtract_js_scalar: "subtract_js (Arr xs) (Num m) = map_leaves (\<lambda>x. d_sub x m) (Arr xs)"
  unfolding subtract_js_def dflt_def by (simp only: jsval.distinct if_False arrayCalc_scalar)

lemma divide_js_scalar: "a \<noteq> Undefined \<Longrightarrow> divide_js a (Num d) = map_leaves (\<lambda>x. d_div x d) a"
  unfolding divide_js_def dflt_def by (simp only: jsval.distinct if_False arrayCalc_scalar)

lemma normalize_js_Arr:
  "normalize_js (Arr xs) =
     divide_js (subtract_js (Arr xs) (minimum (Arr xs)))
       (Num (let range = d_sub (to_number (maximum (Arr xs))) (to_number (minimum (Arr xs)))
             in if n_truthy range then range else Fin 0))"
  unfolding normalize_js_def Let_def
  by (simp only: dflt_def jsval.distinct if_False toArray_def jsval.case)

lemma leaf_value_member:
  assumes "doubles a" "v \<in> set (leaves a)"
  shows "\<exists>q. v = Num (Fin q) \<and> q \<in> set (leaf_values a)"
proof -
  have "v \<in> set (map (\<lambda>q. Num (Fin q)) (leaf_values a))"
    using assms(2) doubles_leaf_values[OF assms(1)] by simp
  then show ?thesis by auto
qed

lemma leaf_value_double:
  assumes "doubles a" "q \<in> set (leaf_values a)"
  shows "round_dbl q = Fin q"
proof -
  have "Num (Fin q) \<in> set (map (\<lambda>q. Num (Fin q)) (leaf_values a))" using assms(2) by simp
  then have "Num (Fin q) \<in> set (leaves a)" using doubles_leaf_values[OF assms(1)] by simp
  then show ?thesis using doubles_leaves[OF assms(1)] by blast
qed

lemma normalize_range:
  assumes "doubles (Arr xs)" "least_leaf (Arr xs) mn" "greatest_leaf (Arr xs) mx" "mn < mx"
  shows "normalize_js (Arr xs) =
         map_leaves (\<lambda>x. d_div (d_sub x (Fin mn)) (d_sub (Fin mx) (Fin mn))) (Arr xs)"
proof -
  have dm: "round_dbl mn = Fin mn" "round_dbl mx = Fin mx"
    using assms(2,3) leaf_value_double[OF assms(1)] by (simp_all add: least_leaf_def greatest_leaf_def)
  have "round_dbl (mx - mn) \<noteq> Fin 0" using dm assms(4) by (intro doubles_differ) simp_all
  moreover have "round_dbl (mx - mn) \<noteq> NaN" by (rule round_dbl_not_NaN)
  moreover have r: "d_sub (Fin mx) (Fin mn) = round_dbl (mx - mn)" by (simp add: d_sub_def n_sub_def)
  ultimately have t: "n_truthy (d_sub (Fin mx) (Fin mn))" by (simp add: n_truthy_def)
  have "normalize_js (Arr xs) =
        divide_js (subtract_js (Arr xs) (Num (Fin mn))) (Num (d_sub (Fin mx) (Fin mn)))"
    unfolding normalize_js_Arr minimum_least[OF assms(1,2)] maximum_greatest[OF assms(1,3)]
      to_number.simps Let_def using t by (simp only: if_True)
  also have "\<dots> = map_leaves (\<lambda>x. d_div x (d_sub (Fin mx) (Fin mn)))
                      (map_leaves (\<lambda>x. d_sub x (Fin mn)) (Arr xs))"
    unfolding subtract_js_scalar by (rule divide_js_scalar) simp
  finally show ?thesis by (simp only: map_leaves_comp)
qed

lemma normalize_degenerate:
  assumes "doubles (Arr xs)" "least_leaf (Arr xs) m" "greatest_leaf (Arr xs) m"
  shows "normalize_js (Arr xs) = divide_js (subtract_js (Arr xs) (Num (Fin m))) (Num (Fin 0))"
    and "normalize_js (Arr xs) = map_leaves (\<lambda>x. NaN) (Arr xs)"
proof -
  have r: "d_sub (Fin m) (Fin m) = Fin 0" by (simp add: d_sub_def n_sub_def round_dbl_def)
  have t: "\<not> n_truthy (Fin 0)" by (simp add: n_truthy_def)
  show first: "normalize_js (Arr xs) = divide_js (subtract_js (Arr xs) (Num (Fin m))) (Num (Fin 0))"
    unfolding normalize_js_Arr minimum_least[OF assms(1,2)] maximum_greatest[OF assms(1,3)]
      to_number.simps Let_def r using t by (simp only: if_False)
  have "divide_js (subtract_js (Arr xs) (Num (Fin m))) (Num (Fin 0)) =
        map_leaves (\<lambda>x. d_div x (Fin 0)) (map_leaves (\<lambda>x. d_sub x (Fin m)) (Arr xs))"
    unfolding subtract_js_scalar by (rule divide_js_scalar) simp
  also have "\<dots> = map_leaves (\<lambda>x. d_div (d_sub x (Fin m)) (Fin 0)) (Arr xs)"
    by (rule map_leaves_comp)
  also have "\<dots> = map_leaves (\<lambda>x. NaN) (Arr xs)"
  proof (rule map_leaves_cong_leaves)
    fix v assume "v \<in> set (leaves (Arr xs))"
    then obtain q where q: "v = Num (Fin q)" "q \<in> set (leaf_values (Arr xs))"
      using leaf_value_member[OF assms(1)] by blast
    then have "m \<le> q" "q \<le> m" using assms(2,3) by (simp_all add: least_leaf_def greatest_leaf_def)
    then have "q = m" by simp
    then show "d_div (d_sub (to_number v) (Fin m)) (Fin 0) = NaN"
      by (simp add: q r d_div_def inf_of_sign_def)
  qed
  finally show "normalize_js (Arr xs) = map_leaves (\<lambda>x. NaN) (Arr xs)" by (simp only: first)
qed

lemma map_leaves_no_leaves: "leaves a = [] \<Longrightarrow> map_leaves f a = a"
  by (induction a) (simp_all add: map_idI)

lemma normalize_no_leaves:
  assumes "leaves (Arr xs) = []"
  shows "normalize_js (Arr xs) = Arr xs"
proof -
  have s: "subtract_js (Arr xs) (Num m) = Arr xs" for m
    unfolding subtract_js_scalar using assms by (rule map_leaves_no_leaves)
  have "divide_js (Arr xs) (Num d) = map_leaves (\<lambda>x. d_div x d) (Arr xs)" for d
    by (rule divide_js_scalar) simp
  then have d: "divide_js (Arr xs) (Num d) = Arr xs" for d
    by (simp only: map_leaves_no_leaves[OF assms])
  show ?thesis unfolding normalize_js_Arr minimum_Arr s d ..
qed

lemma least_greatest_exist:
  assumes "doubles a" "leaves a \<noteq> []"
  shows "\<exists>mn mx. least_leaf a mn \<and> greatest_leaf a mx"
proof -
  have ne: "set (leaf_values a) \<noteq> {}"
    using assms(2) doubles_leaf_values[OF assms(1)] by auto
  have "least_leaf a (Min (set (leaf_values a)))"
    unfolding least_leaf_def using ne by (simp add: Min_in)
  moreover have "greatest_leaf a (Max (set (leaf_values a)))"
    unfolding greatest_leaf_def using ne by (simp add: Max_in)
  ultimately show ?thesis by blast
qed

lemma normalize_example_flat:
  "normalize_js (Arr [Num (Fin 0), Num (Fin 1), Num (Fin 2), Num (Fin 3), Num (Fin 4)])
     = Arr [Num (Fin 0), Num (Fin (1/4)), Num (Fin (1/2)), Num (Fin (3/4)), Num (Fin 1)]"
proof -
  have d: "doubles (Arr [Num (Fin 0), Num (Fin 1), Num (Fin 2), Num (Fin 3), Num (Fin 4)])"
    by (simp add: round_dbl_small)
  have l: "least_leaf (Arr [Num (Fin 0), Num (Fin 1), Num (Fin 2), Num (Fin 3), Num (Fin 4)]) 0"
    by (simp add: least_leaf_def leaf_values_def)
  have g: "greatest_leaf (Arr [Num (Fin 0), Num (Fin 1), Num (Fin 2), Num (Fin 3), Num (Fin 4)]) 4"
    by (simp add: greatest_leaf_def leaf_values_def)
  have "normalize_js (Arr [Num (Fin 0), Num (Fin 1), Num (Fin 2), Num (Fin 3), Num (Fin 4)]) =
        map_leaves (\<lambda>x. d_div (d_sub x (Fin 0)) (d_sub (Fin 4) (Fin 0)))
          (Arr [Num (Fin 0), Num (Fin 1), Num (Fin 2), Num (Fin 3), Num (Fin 4)])"
    by (rule normalize_range[OF d l g]) simp
  also have "\<dots> = Arr [Num (Fin 0), Num (Fin (1/4)), Num (Fin (1/2)), Num (Fin (3/4)), Num (Fin 1)]"
    using round_dbl_dyadic[of 1 2] round_dbl_dyadic[of 1 1] round_dbl_dyadic[of 3 2]
    by (simp add: d_sub_def d_div_def n_sub_def round_dbl_small)
  finally show ?thesis .
qed

lemma normalize_example_nested:
  "normalize_js (Arr [Num (Fin 5), Arr [Num (Fin 12), Arr [Num (Fin 4), Num (Fin 17)]], Num (Fin 3), Num (Fin 1)])
     = Arr [Num (Fin (1/4)), Arr [Num (Fin (11/16)), Arr [Num (Fin (3/16)), Num (Fin 1)]], Num (Fin (1/8)), Num (Fin 0)]"
proof -
  have d: "doubles (Arr [Num (Fin 5), Arr [Num (Fin 12), Arr [Num (Fin 4), Num (Fin 17)]], Num (Fin 3), Num (Fin 1)])"
    by (simp add: round_dbl_small)
  have l: "least_leaf (Arr [Num (Fin 5), Arr [Num (Fin 12), Arr [Num (Fin 4), Num (Fin 17)]], Num (Fin 3), Num (Fin 1)]) 1"
    by (simp add: least_leaf_def leaf_values_def)
  have g: "greatest_leaf (Arr [Num (Fin 5), Arr [Num (Fin 12), Arr [Num (Fin 4), Num (Fin 17)]], Num (Fin 3), Num (Fin 1)]) 17"
    by (simp add: greatest_leaf_def leaf_values_def)
  have "normalize_js (Arr [Num (Fin 5), Arr [Num (Fin 12), Arr [Num (Fin 4), Num (Fin 17)]], Num (Fin 3), Num (Fin 1)]) =
        map_leaves (\<lambda>x. d_div (d_sub x (Fin 1)) (d_sub (Fin 17) (Fin 1)))
          (Arr [Num (Fin 5), Arr [Num (Fin 12), Arr [Num (Fin 4), Num (Fin 17)]], Num (Fin 3), Num (Fin 1)])"
    by (rule normalize_range[OF d l g]) simp
  also have "\<dots> = Arr [Num (Fin (1/4)), Arr [Num (Fin (11/16)), Arr [Num (Fin (3/16)), Num (Fin 1)]],
                         Num (Fin (1/8)), Num (Fin 0)]"
    using round_dbl_dyadic[of 1 2] round_dbl_dyadic[of 11 4] round_dbl_dyadic[of 3 4] round_dbl_dyadic[of 1 3]
    by (simp add: d_sub_def d_div_def n_sub_def round_dbl_small)
  finally show ?thesis .
qed


text \<open>
  Claim C9. Let every leaf of a sequence be a finite double. A sequence with a leaf has
  a least leaf \<open>mn\<close> and a greatest leaf \<open>mx\<close>; \<open>minimum\<close> and \<open>maximum\<close> return them; when
  \<open>mn < mx\<close>, \<open>normalize\<close> maps every element \<open>x\<close>, at any nesting depth, to
  \<open>(x - mn) / (mx - mn)\<close>, computed with the operators \<open>-\<close> and \<open>/\<close> of doubles; and when
  \<open>mx = mn\<close> the divisor is the literal 0 and every element of the result is \<open>NaN\<close>.
  A sequence without a leaf is returned as it is.
  \<open>normalize([0,1,2,3,4])\<close> is \<open>[0, 0.25, 0.5, 0.75, 1]\<close> and
  \<open>normalize([5, [12, [4, 17]], 3, 1])\<close> is \<open>[0.25, [0.6875, [0.1875, 1]], 0.125, 0]\<close>.
\<close>

theorem normalize_numeric:
  assumes "doubles (Arr xs)"
  shows "(leaves (Arr xs) = [] \<longrightarrow> normalize_js (Arr xs) = Arr xs)
       \<and> (leaves (Arr xs) \<noteq> [] \<longrightarrow> (\<exists>mn mx. least_leaf (Arr xs) mn \<and> greatest_leaf (Arr xs) mx))
       \<and> (least_leaf (Arr xs) mn \<and> greatest_leaf (Arr xs) mx \<longrightarrow>
            minimum (Arr xs) = Num (Fin mn) \<and> maximum (Arr xs) = Num (Fin mx)
          \<and> (mn < mx \<longrightarrow>
               normalize_js (Arr xs) =
                 map_leaves (\<lambda>x. d_div (d_sub x (Fin mn)) (d_sub (Fin mx) (Fin mn))) (Arr xs))
          \<and> (mn = mx \<longrightarrow>
               normalize_js (Arr xs) = divide_js (subtract_js (Arr xs) (Num (Fin mn))) (Num (Fin 0))
             \<and> normalize_js (Arr xs) = map_leaves (\<lambda>x. NaN) (Arr xs)))
       \<and> normalize_js (Arr [Num (Fin 0), Num (Fin 1), Num (Fin 2), Num (Fin 3), Num (Fin 4)])
            = Arr [Num (Fin 0), Num (Fin (1/4)), Num (Fin (1/2)), Num (Fin (3/4)), Num (Fin 1)]
       \<and> normalize_js (Arr [Num (Fin 5), Arr [Num (Fin 12), Arr [Num (Fin 4), Num (Fin 17)]], Num (Fin 3), Num (Fin 1)])
            = Arr [Num (Fin (1/4)), Arr [Num (Fin (11/16)), Arr [Num (Fin (3/16)), Num (Fin 1)]], Num (Fin (1/8)), Num (Fin 0)]"
proof (intro conjI impI)
  show "normalize_js (Arr xs) = Arr xs" if "leaves (Arr xs) = []"
    using that by (rule normalize_no_leaves)
  show "\<exists>mn mx. least_leaf (Arr xs) mn \<and> greatest_leaf (Arr xs) mx" if "leaves (Arr xs) \<noteq> []"
    using assms that by (rule least_greatest_exist)
  show "minimum (Arr xs) = Num (Fin mn)" if "least_leaf (Arr xs) mn \<and> greatest_leaf (Arr xs) mx"
    using that minimum_least[OF assms] by blast
  show "maximum (Arr xs) = Num (Fin mx)" if "least_leaf (Arr xs) mn \<and> greatest_leaf (Arr xs) mx"
    using that maximum_greatest[OF assms] by blast
  show "normalize_js (Arr xs) =
          map_leaves (\<lambda>x. d_div (d_sub x (Fin mn)) (d_sub (Fin mx) (Fin mn))) (Arr xs)"
    if "least_leaf (Arr xs) mn \<and> greatest_leaf (Arr xs) mx" "mn < mx"
    using that normalize_range[OF assms] by blast
  show "normalize_js (Arr xs) = divide_js (subtract_js (Arr xs) (Num (Fin mn))) (Num (Fin 0))"
    if "least_leaf (Arr xs) mn \<and> greatest_leaf (Arr xs) mx" "mn = mx"
    using that normalize_degenerate(1)[OF assms] by blast
  show "normalize_js (Arr xs) = map_leaves (\<lambda>x. NaN) (Arr xs)"
    if "least_leaf (Arr xs) mn \<and> greatest_leaf (Arr xs) mx" "mn = mx"
    using that normalize_degenerate(2)[OF assms] by blast
  show "normalize_js (Arr [Num (Fin 0), Num (Fin 1), Num (Fin 2), Num (Fin 3), Num (Fin 4)])
            = Arr [Num (Fin 0), Num (Fin (1/4)), Num (Fin (1/2)), Num (Fin (3/4)), Num (Fin 1)]"
    by (rule normalize_example_flat)
  show "normalize_js (Arr [Num (Fin 5), Arr [Num (Fin 12), Arr [Num (Fin 4), Num (Fin 17)]], Num (Fin 3), Num (Fin 1)])
            = Arr [Num (Fin (1/4)), Arr [Num (Fin (11/16)), Arr [Num (Fin (3/16)), Num (Fin 1)]], Num (Fin (1/8)), Num (Fin 0)]"
    by (rule normalize_example_nested)
qed

theorem normalize_numeric_witness:
  "doubles (Arr [Num (Fin 5), Arr [Num (Fin 12), Arr [Num (Fin 4), Num (Fin 17)]], Num (Fin 3), Num (Fin 1)])
   \<and> leaves (Arr [Num (Fin 5), Arr [Num (Fin 12), Arr [Num (Fin 4), Num (Fin 17)]], Num (Fin 3), Num (Fin 1)]) \<noteq> []
   \<and> least_leaf (Arr [Num (Fin 5), Arr [Num (Fin 12), Arr [Num (Fin 4), Num (Fin 17)]], Num (Fin 3), Num (Fin 1)]) 1
   \<and> greatest_leaf (Arr [Num (Fin 5), Arr [Num (Fin 12), Arr [Num (Fin 4), Num (Fin 17)]], Num (Fin 3), Num (Fin 1)]) 17
   \<and> (1::rat) < 17
   \<and> minimum (Arr [Num (Fin 5), Arr [Num (Fin 12), Arr [Num (Fin 4), Num (Fin 17)]], Num (Fin 3), Num (Fin 1)])
      = Num (Fin 1)
   \<and> maximum (Arr [Num (Fin 5), Arr [Num (Fin 12), Arr [Num (Fin 4), Num (Fin 17)]], Num (Fin 3), Num (Fin 1)])
      = Num (Fin 17)
   \<and> normalize_js (Arr [Num (Fin 5), Arr [Num (Fin 12), Arr [Num (Fin 4), Num (Fin 17)]], Num (Fin 3), Num (Fin 1)])
      = map_leaves (\<lambda>x. d_div (d_sub x (Fin 1)) (d_sub (Fin 17) (Fin 1)))
          (Arr [Num (Fin 5), Arr [Num (Fin 12), Arr [Num (Fin 4), Num (Fin 17)]], Num (Fin 3), Num (Fin 1)])
   \<and> doubles (Arr [Num (Fin 5), Arr [Num (Fin 5), Num (Fin 5)]])
   \<and> least_leaf (Arr [Num (Fin 5), Arr [Num (Fin 5), Num (Fin 5)]]) 5
   \<and> greatest_leaf (Arr [Num (Fin 5), Arr [Num (Fin 5), Num (Fin 5)]]) 5
   \<and> normalize_js (Arr [Num (Fin 5), Arr [Num (Fin 5), Num (Fin 5)]])
      = Arr [Num NaN, Arr [Num NaN, Num NaN]]
   \<and> doubles (Arr [Arr [], Arr [Arr []]])
   \<and> leaves (Arr [Arr [], Arr [Arr []]]) = []
   \<and> normalize_js (Arr [Arr [], Arr [Arr []]]) = Arr [Arr [], Arr [Arr []]]"
proof -
  have d: "doubles (Arr [Num (Fin 5), Arr [Num (Fin 12), Arr [Num (Fin 4), Num (Fin 17)]], Num (Fin 3), Num (Fin 1)])"
    by (simp add: round_dbl_small)
  have n: "leaves (Arr [Num (Fin 5), Arr [Num (Fin 12), Arr [Num (Fin 4), Num (Fin 17)]], Num (Fin 3), Num (Fin 1)]) \<noteq> []"
    by simp
  have l: "least_leaf (Arr [Num (Fin 5), Arr [Num (Fin 12), Arr [Num (Fin 4), Num (Fin 17)]], Num (Fin 3), Num (Fin 1)]) 1"
    by (simp add: least_leaf_def leaf_values_def)
  have g: "greatest_leaf (Arr [Num (Fin 5), Arr [Num (Fin 12), Arr [Num (Fin 4), Num (Fin 17)]], Num (Fin 3), Num (Fin 1)]) 17"
    by (simp add: greatest_leaf_def leaf_values_def)
  have lt: "(1::rat) < 17" by simp
  have d5: "doubles (Arr [Num (Fin 5), Arr [Num (Fin 5), Num (Fin 5)]])"
    by (simp add: round_dbl_small)
  have l5: "least_leaf (Arr [Num (Fin 5), Arr [Num (Fin 5), Num (Fin 5)]]) 5"
    by (simp add: least_leaf_def leaf_values_def)
  have g5: "greatest_leaf (Arr [Num (Fin 5), Arr [Num (Fin 5), Num (Fin 5)]]) 5"
    by (simp add: greatest_leaf_def leaf_values_def)
  have d0: "doubles (Arr [Arr [], Arr [Arr []]])" by simp
  have n0: "leaves (Arr [Arr [], Arr [Arr []]]) = []" by simp
  have r: "map_leaves (\<lambda>x. NaN) (Arr [Num (Fin 5), Arr [Num (Fin 5), Num (Fin 5)]])
       = Arr [Num NaN, Arr [Num NaN, Num NaN]]" by simp
  from normalize_numeric[OF d5, of 5 5] l5 g5
  have "normalize_js (Arr [Num (Fin 5), Arr [Num (Fin 5), Num (Fin 5)]])
       = map_leaves (\<lambda>x. NaN) (Arr [Num (Fin 5), Arr [Num (Fin 5), Num (Fin 5)]])" by blast
  then have k: "normalize_js (Arr [Num (Fin 5), Arr [Num (Fin 5), Num (Fin 5)]])
       = Arr [Num NaN, Arr [Num NaN, Num NaN]]" by (simp only: r)
  from normalize_numeric[OF d0, of 0 0] n0
  have z: "normalize_js (Arr [Arr [], Arr [Arr []]]) = Arr [Arr [], Arr [Arr []]]" by blast
  from normalize_numeric[OF d, of 1 17] lt d n l g d5 l5 g5 k d0 n0 z show ?thesis by blast
qed


section \<open>Array slices\<close>

text \<open>
  \<open>a.slice(0, n)\<close> is a prefix and \<open>a.slice(n, a.length)\<close> the matching suffix; between
  non-negative integer positions \<open>k\<close> and \<open>k + n\<close> the slice is \<open>n\<close> elements from
  position \<open>k\<close> on.
\<close>

lemma trunc_rat_of_int [simp]: "trunc_rat (of_int t) = t"
  by (simp add: trunc_rat_def)

lemma trunc_rat_of_nat [simp]: "trunc_rat (of_nat t) = int t"
  using trunc_rat_of_int[of "int t"] by (simp del: trunc_rat_of_int)

lemma rel_index_of_int: "0 \<le> t \<Longrightarrow> rel_index len (Fin (of_int t)) = min (nat t) len"
  by simp

lemma rel_index_0: "rel_index len (Fin 0) = 0"
  using rel_index_of_int[of 0 len] by simp

lemma rel_index_length: "rel_index len (n_nat len) = len"
  by simp

lemma rel_index_le: "rel_index len n \<le> len"
  by (cases n) (auto simp: max_def)

lemma js_slice_from0: "js_slice a (Fin 0) n = take (rel_index (length a) n) a"
  by (simp add: js_slice_def rel_index_0 del: rel_index.simps)

lemma js_slice_to_end: "js_slice a n (n_nat (length a)) = drop (rel_index (length a) n) a"
  by (simp add: js_slice_def rel_index_length del: rel_index.simps)

lemma js_slice_ints:
  assumes "0 \<le> k" "0 \<le> n"
  shows "js_slice a (Fin (of_int k)) (Fin (of_int (k + n))) = take (nat n) (drop (nat k) a)"
proof -
  have kn: "nat (k + n) = nat k + nat n" using assms by (simp add: nat_add_distrib)
  have "js_slice a (Fin (of_int k)) (Fin (of_int (k + n))) =
        take (min (nat k + nat n) (length a) - min (nat k) (length a)) (drop (min (nat k) (length a)) a)"
    using assms unfolding js_slice_def Let_def
    by (simp only: rel_index_of_int add_nonneg_nonneg kn)
  also have "\<dots> = take (nat n) (drop (nat k) a)"
  proof (cases "nat k \<le> length a")
    case True
    then have "min (nat k + nat n) (length a) - min (nat k) (length a) = min (nat n) (length (drop (nat k) a))"
      by (simp add: min_def) linarith
    moreover have "min (nat k) (length a) = nat k" using True by simp
    moreover have "take (min (nat n) (length (drop (nat k) a))) (drop (nat k) a) = take (nat n) (drop (nat k) a)"
      by (simp add: min_def)
    ultimately show ?thesis by (simp only:)
  next
    case False
    then show ?thesis by simp
  qed
  finally show ?thesis .
qed

lemma palindrome_single_noDouble: "palindrome (Arr [x]) True = [x]"
  by (simp add: palindrome_def n_sub_def js_slice_def trunc_rat_def)


section \<open>Scalars given to the structural transformers\<close>

text \<open>
  \<open>toArray\<close> turns a scalar and its singleton into the same array, and \<open>duplicate\<close>
  never reads its first argument.
\<close>

lemma duplicate_ignores_input: "duplicate a d = duplicate b d"
  by (simp add: duplicate_def array_ctor_def flatMap_def split: number.splits)

lemma toArray_scalar: "is_scalar x \<Longrightarrow> toArray (dflt d x) = toArray (dflt d (Arr [x]))"
  by (cases x) (simp_all add: is_scalar_def toArray_def dflt_def)

lemma toArray_scalar_map:
  "is_scalar x \<Longrightarrow> map toArray (pre @ x # post) = map toArray (pre @ Arr [x] # post)"
  by (cases x) (simp_all add: is_scalar_def toArray_def)


text \<open>
  Claim C4, as amended. For a bare scalar \<open>x\<close>, each of \<open>reverse\<close>, \<open>rotate\<close> (by a count
  that is an integer), \<open>slice\<close>, \<open>split\<close>, \<open>lace\<close>, \<open>merge\<close>, \<open>lookup\<close>, \<open>repeat\<close>,
  \<open>spray\<close>, \<open>duplicate\<close> and \<open>stretch\<close> returns what it returns for the singleton
  \<open>[x]\<close>, in every sequence argument the scalar is given for. \<open>palindrome(x)\<close> returns
  \<open>[x]\<close> whatever the flag; that is \<open>palindrome([x])\<close> when \<open>noDouble\<close> is true, whereas
  \<open>palindrome([x])\<close> with \<open>noDouble\<close> false is \<open>[x, x]\<close>.
\<close>

theorem scalar_as_singleton:
  assumes "is_scalar x" and "round_dbl (of_int n) = Fin (of_int n)"
  shows "reverse x = reverse (Arr [x])
       \<and> rotate_dbl x (Fin (of_int n)) = rotate_dbl (Arr [x]) (Fin (of_int n))
       \<and> slice_js x y r = slice_js (Arr [x]) y r
       \<and> slice_js y x r = slice_js y (Arr [x]) r
       \<and> split_js x y = split_js (Arr [x]) y
       \<and> split_js y x = split_js y (Arr [x])
       \<and> lace (pre @ x # post) = lace (pre @ Arr [x] # post)
       \<and> merge_js (pre @ x # post) = merge_js (pre @ Arr [x] # post)
       \<and> lookup_js x y = lookup_js (Arr [x]) y
       \<and> lookup_js y x = lookup_js y (Arr [x])
       \<and> repeat_js x y = repeat_js (Arr [x]) y
       \<and> repeat_js y x = repeat_js y (Arr [x])
       \<and> spray x y = spray (Arr [x]) y
       \<and> spray y x = spray y (Arr [x])
       \<and> duplicate x d = duplicate (Arr [x]) d
       \<and> stretch x len mode = stretch (Arr [x]) len mode
       \<and> palindrome x noDouble = [x]
       \<and> palindrome (Arr [x]) True = [x]
       \<and> palindrome (Arr [x]) False = [x, x]"
proof -
  note t = toArray_scalar[OF assms(1)]
  have "reverse x = reverse (Arr [x])"
    using assms(1) by (cases x) (simp_all add: is_scalar_def reverse_def dflt_def)
  moreover have "rotate_dbl x (Fin (of_int n)) = rotate_dbl (Arr [x]) (Fin (of_int n))"
    unfolding rotate_dbl_single[OF assms(2)]
    using assms(1) by (cases x) (simp_all add: is_scalar_def rotate_dbl_def dflt_def)
  moreover have "slice_js x y r = slice_js (Arr [x]) y r" "slice_js y x r = slice_js y (Arr [x]) r"
    unfolding slice_js_def by (simp_all only: t)
  moreover have "split_js x y = split_js (Arr [x]) y" "split_js y x = split_js y (Arr [x])"
    unfolding split_js_def by (simp_all only: t)
  moreover have "lace (pre @ x # post) = lace (pre @ Arr [x] # post)"
    unfolding lace_def
    by (simp only: toArray_scalar_map[OF assms(1)] append_is_Nil_conv list.distinct simp_thms)
  moreover have "merge_js (pre @ x # post) = merge_js (pre @ Arr [x] # post)"
    unfolding merge_js_def
    by (simp only: toArray_scalar_map[OF assms(1)] append_is_Nil_conv list.distinct simp_thms)
  moreover have "lookup_js x y = lookup_js (Arr [x]) y" "lookup_js y x = lookup_js y (Arr [x])"
    unfolding lookup_js_def by (simp_all only: t)
  moreover have "repeat_js x y = repeat_js (Arr [x]) y" "repeat_js y x = repeat_js y (Arr [x])"
    unfolding repeat_js_def by (simp_all only: t)
  moreover have "spray x y = spray (Arr [x]) y" "spray y x = spray y (Arr [x])"
    unfolding spray_def by (simp_all only: t)
  moreover have "duplicate x d = duplicate (Arr [x]) d"
    by (rule duplicate_ignores_input)
  moreover have "stretch x len mode = stretch (Arr [x]) len mode"
    unfolding stretch_def by (simp only: t)
  moreover have "palindrome x noDouble = [x]"
    using assms(1) by (cases x) (simp_all add: palindrome_def is_scalar_def)
  moreover have "palindrome (Arr [x]) False = [x, x]"
    by (simp add: palindrome_def)
  ultimately show ?thesis using palindrome_single_noDouble by blast
qed

theorem scalar_as_singleton_witness:
  "is_scalar (Str ''c'') \<and> round_dbl (of_int 3) = Fin (of_int 3)
   \<and> reverse (Str ''c'') = reverse (Arr [Str ''c''])
   \<and> rotate_dbl (Str ''c'') (Fin (of_int 3)) = rotate_dbl (Arr [Str ''c'']) (Fin (of_int 3))
   \<and> lace ([] @ Str ''c'' # [Arr [Num (Fin 1), Num (Fin 2)]])
       = lace ([] @ Arr [Str ''c''] # [Arr [Num (Fin 1), Num (Fin 2)]])
   \<and> palindrome (Str ''c'') False = [Str ''c'']
   \<and> palindrome (Arr [Str ''c'']) False = [Str ''c'', Str ''c'']"
proof -
  have h: "is_scalar (Str ''c'')" by (simp add: is_scalar_def)
  have d: "round_dbl (of_int 3) = Fin (of_int 3)" by (rule round_dbl_int) simp
  from scalar_as_singleton[OF h d, where pre = "[]" and post = "[Arr [Num (Fin 1), Num (Fin 2)]]"
      and noDouble = False and y = Undefined and r = True and d = "Fin 1"
      and len = "Fin 1" and mode = "()"] h d
  show ?thesis by blast
qed

text \<open>
  Claim C4 as stated fails for \<open>palindrome\<close> with \<open>noDouble\<close> false: the scalar 1 gives
  \<open>[1]\<close>, the singleton \<open>[1]\<close> gives \<open>[1, 1]\<close>. It fails for \<open>rotate\<close> by a count that
  is no integer: the scalar 7 gives \<open>[7]\<close>, the singleton \<open>[7]\<close> rotated by 0.5 reads
  position 0.5, which is \<open>undefined\<close>. And it fails for \<open>clone\<close>, which calls \<open>map\<close> on
  its first argument and throws a \<open>TypeError\<close> on a scalar.
\<close>

theorem scalar_not_as_singleton:
  "palindrome (Num (Fin 1)) False = [Num (Fin 1)]
   \<and> palindrome (Arr [Num (Fin 1)]) False = [Num (Fin 1), Num (Fin 1)]
   \<and> rotate_dbl (Num (Fin 7)) (Fin (1 / 2)) = [Num (Fin 7)]
   \<and> rotate_dbl (Arr [Num (Fin 7)]) (Fin (1 / 2)) = [Undefined]
   \<and> clone (Num (Fin 5)) [] = Inl TypeError
   \<and> clone (Arr [Num (Fin 5)]) [] = Inr [Num (Fin 5)]"
proof (intro conjI)
  show "palindrome (Num (Fin 1)) False = [Num (Fin 1)]"
    "palindrome (Arr [Num (Fin 1)]) False = [Num (Fin 1), Num (Fin 1)]"
    by (simp_all add: palindrome_def)
  show "rotate_dbl (Num (Fin 7)) (Fin (1 / 2)) = [Num (Fin 7)]"
    by (simp add: rotate_dbl_def dflt_def)
  have s: "d_sub (Fin 0) (Fin (1 / 2)) = Fin (- (1 / 2))"
    using round_dbl_dyadic[of "- 1" 1] by (simp add: d_sub_def n_sub_def)
  have r1: "n_rem (Fin (- (1 / 2))) (Fin 1) = Fin (- (1 / 2))" by (rule n_rem_small) simp
  have a: "d_add (Fin (- (1 / 2))) (Fin 1) = Fin (1 / 2)"
    using round_dbl_dyadic[of 1 1] by (simp add: d_add_def)
  have r2: "n_rem (Fin (1 / 2)) (Fin 1) = Fin (1 / 2)" by (rule n_rem_small) simp
  have "rotate_index_dbl 1 (Fin (1 / 2)) 0 = Fin (1 / 2)"
    unfolding rotate_index_dbl_def by (simp add: s r1 a r2 del: n_rem.simps)
  then show "rotate_dbl (Arr [Num (Fin 7)]) (Fin (1 / 2)) = [Undefined]"
    by (simp add: rotate_dbl_def dflt_def floor_rat_one_div_numeral)
  show "clone (Num (Fin 5)) [] = Inl TypeError"
    by (simp add: clone_def dflt_def toArray_def clone_values_def)
  show "clone (Arr [Num (Fin 5)]) [] = Inr [Num (Fin 5)]"
    by (simp add: clone_def dflt_def toArray_def clone_values_def add_js_def js_plus_def
        to_primitive_def is_Str_def)
qed


section \<open>slice\<close>

text \<open>
  On integer sizes the loop of \<open>slice\<close> keeps an integer start position and pushes one
  chunk for every positive size.
\<close>

lemma js_gt0_int: "js_gt0 (Num (Fin (of_int n))) = (0 < n)"
  by (simp add: js_gt0_def)

lemma slice_loop_ints:
  assumes "0 \<le> k"
  shows "slice_loop a (map (\<lambda>n. Num (Fin (of_int n))) ns) (Num (Fin (of_int k))) acc =
         (acc @ map Arr (chunks ns (drop (nat k) a)),
          Num (Fin (of_int (k + sum_list (filter (\<lambda>n. 0 < n) ns)))))"
  using assms
proof (induction ns arbitrary: k acc)
  case Nil
  then show ?case by simp
next
  case (Cons n ns)
  show ?case
  proof (cases "0 < n")
    case True
    then have kn: "0 \<le> k + n" and n0: "0 \<le> n" using Cons.prems by simp_all
    have plus: "js_plus (Num (Fin (of_int k))) (Num (Fin (of_int n))) = Num (Fin (of_int (k + n)))"
      by (simp add: js_plus_Num)
    have sl: "js_slice a (to_number (Num (Fin (of_int k)))) (to_number (Num (Fin (of_int (k + n)))))
              = take (nat n) (drop (nat k) a)"
      using js_slice_ints[OF Cons.prems n0] by simp
    have dr: "drop (nat (k + n)) a = drop (nat n) (drop (nat k) a)"
      using Cons.prems n0 by (simp add: nat_add_distrib add.commute)
    have "slice_loop a (map (\<lambda>n. Num (Fin (of_int n))) (n # ns)) (Num (Fin (of_int k))) acc =
          slice_loop a (map (\<lambda>n. Num (Fin (of_int n))) ns) (Num (Fin (of_int (k + n))))
            (acc @ [Arr (take (nat n) (drop (nat k) a))])"
      using True by (simp only: list.map slice_loop.simps js_gt0_int if_True Let_def plus sl)
    also have "\<dots> = ((acc @ [Arr (take (nat n) (drop (nat k) a))]) @ map Arr (chunks ns (drop (nat (k + n)) a)),
          Num (Fin (of_int (k + n + sum_list (filter (\<lambda>n. 0 < n) ns)))))"
      by (rule Cons.IH[OF kn])
    finally show ?thesis using True by (simp add: dr add.assoc)
  next
    case False
    then have "slice_loop a (map (\<lambda>n. Num (Fin (of_int n))) (n # ns)) (Num (Fin (of_int k))) acc =
               slice_loop a (map (\<lambda>n. Num (Fin (of_int n))) ns) (Num (Fin (of_int k))) acc"
      by (simp only: list.map slice_loop.simps js_gt0_int if_False)
    then show ?thesis using False Cons.IH[OF Cons.prems] by simp
  qed
qed

lemma sum_pos_nonneg: "0 \<le> sum_list (filter (\<lambda>n. 0 < n) (ns::int list))"
  by (induction ns) auto

lemma concat_chunks: "concat (chunks ns xs) = take (consumed ns) xs"
proof (induction ns arbitrary: xs)
  case Nil
  then show ?case by (simp add: consumed_def)
next
  case (Cons n ns)
  show ?case
  proof (cases "0 < n")
    case True
    have "consumed (n # ns) = nat n + consumed ns"
      using True sum_pos_nonneg[of ns] by (simp add: consumed_def nat_add_distrib)
    then show ?thesis using True Cons.IH by (simp add: take_add)
  next
    case False
    then show ?thesis using Cons.IH by (simp add: consumed_def)
  qed
qed

lemma length_chunks: "length (chunks ns xs) = length (filter (\<lambda>n. 0 < n) ns)"
  by (induction ns arbitrary: xs) auto


text \<open>
  Claim C3, as amended. For integer sizes, \<open>slice(a, sizes, keepRest)\<close> cuts \<open>a\<close> into
  consecutive chunks whose lengths are the positive entries of \<open>sizes\<close>, every entry used
  once and in order (the sizes are not cycled; a chunk is cut short where \<open>a\<close> ends);
  the chunks together are the prefix of \<open>a\<close> that the sizes ask for; and when
  \<open>keepRest\<close> is true a non-empty leftover tail becomes one final chunk.
\<close>

theorem slice_sizes_once:
  "slice_js (Arr a) (Arr (map (\<lambda>n. Num (Fin (of_int n))) ns)) keepRest =
     map Arr (chunks ns a) @
     (if keepRest \<and> consumed ns < length a then [Arr (drop (consumed ns) a)] else [])
   \<and> concat (chunks ns a) = take (consumed ns) a
   \<and> length (chunks ns a) = length (filter (\<lambda>n. 0 < n) ns)"
proof (intro conjI)
  define total where "total = sum_list (filter (\<lambda>n. 0 < n) ns)"
  have t0: "0 \<le> total" unfolding total_def by (rule sum_pos_nonneg)
  have loop: "slice_loop a (map (\<lambda>n. Num (Fin (of_int n))) ns) (Num (Fin 0)) [] =
        (map Arr (chunks ns a), Num (Fin (of_int total)))"
    using slice_loop_ints[of 0 a ns "[]"] by (simp add: total_def)
  have rest: "js_slice a (to_number (Num (Fin (of_int total)))) (n_nat (length a)) = drop (consumed ns) a"
    using t0 by (simp only: js_slice_to_end to_number.simps rel_index_of_int)
       (simp add: consumed_def total_def min_def)
  show "slice_js (Arr a) (Arr (map (\<lambda>n. Num (Fin (of_int n))) ns)) keepRest =
     map Arr (chunks ns a) @
     (if keepRest \<and> consumed ns < length a then [Arr (drop (consumed ns) a)] else [])"
    unfolding slice_js_def Let_def
    by (simp only: dflt_def toArray_def jsval.distinct if_False jsval.case loop prod.case rest)
       simp
  show "concat (chunks ns a) = take (consumed ns) a" by (rule concat_chunks)
  show "length (chunks ns a) = length (filter (\<lambda>n. 0 < n) ns)" by (rule length_chunks)
qed

theorem slice_sizes_once_witness:
  "slice_js (Arr [Num (Fin 1), Num (Fin 2), Num (Fin 3), Num (Fin 4), Num (Fin 5)])
            (Arr (map (\<lambda>n. Num (Fin (of_int n))) [2, 0, 1])) True
   = [Arr [Num (Fin 1), Num (Fin 2)], Arr [Num (Fin 3)], Arr [Num (Fin 4), Num (Fin 5)]]"
proof -
  have c: "map Arr (chunks [2, 0, 1] [Num (Fin 1), Num (Fin 2), Num (Fin 3), Num (Fin 4), Num (Fin 5)]) @
     (if True \<and> consumed [2, 0, 1] < length [Num (Fin 1), Num (Fin 2), Num (Fin 3), Num (Fin 4), Num (Fin 5)]
      then [Arr (drop (consumed [2, 0, 1]) [Num (Fin 1), Num (Fin 2), Num (Fin 3), Num (Fin 4), Num (Fin 5)])] else [])
    = [Arr [Num (Fin 1), Num (Fin 2)], Arr [Num (Fin 3)], Arr [Num (Fin 4), Num (Fin 5)]]"
    by code_simp
  from slice_sizes_once[of "[Num (Fin 1), Num (Fin 2), Num (Fin 3), Num (Fin 4), Num (Fin 5)]" "[2, 0, 1]" True]
  show ?thesis by (simp only: c)
qed


text \<open>
  Claim C3 as stated says the sizes are cycled while input remains. They are not:
  with sizes \<open>[2]\<close> on five elements the three left over form one chunk of length 3
  when the rest is kept, and are dropped when it is not.
\<close>

theorem slice_does_not_cycle:
  "slice_js (Arr [Num (Fin 1), Num (Fin 2), Num (Fin 3), Num (Fin 4), Num (Fin 5)]) (Arr [Num (Fin 2)]) True
     = [Arr [Num (Fin 1), Num (Fin 2)], Arr [Num (Fin 3), Num (Fin 4), Num (Fin 5)]]
   \<and> slice_js (Arr [Num (Fin 1), Num (Fin 2), Num (Fin 3), Num (Fin 4), Num (Fin 5)]) (Arr [Num (Fin 2)]) False
     = [Arr [Num (Fin 1), Num (Fin 2)]]"
  by code_simp


section \<open>split\<close>

text \<open>
  Rotating the sizes by -1 moves the head to the end. One call of \<open>_split\<close> with a
  head size \<open>x\<close>: a size that is not positive is skipped; a positive size cuts a
  prefix off, which is the only chunk when nothing is left and is followed by the
  split of the rest otherwise.
\<close>

lemma rotate_js_left1: "rotate_js (Arr (x # s)) (Fin (- 1)) = s @ [x]"
proof -
  define xs where "xs = x # s"
  have "rotate_js (Arr xs) (Fin (of_int (- 1))) =
        map (\<lambda>i. xs ! nat ((int i - (- 1)) mod int (length xs))) [0..<length xs]"
    by (rule rotate_js_int)
  then have r: "rotate_js (Arr xs) (Fin (- 1)) =
        map (\<lambda>i. xs ! nat ((int i + 1) mod int (length xs))) [0..<length xs]"
    by simp
  have "map (\<lambda>i. xs ! nat ((int i + 1) mod int (length xs))) [0..<length xs] = s @ [x]"
  proof (rule nth_equalityI)
    show "length (map (\<lambda>i. xs ! nat ((int i + 1) mod int (length xs))) [0..<length xs]) = length (s @ [x])"
      by (simp add: xs_def)
  next
    fix i
    assume "i < length (map (\<lambda>i. xs ! nat ((int i + 1) mod int (length xs))) [0..<length xs])"
    then have i: "i < length xs" by simp
    show "map (\<lambda>i. xs ! nat ((int i + 1) mod int (length xs))) [0..<length xs] ! i = (s @ [x]) ! i"
    proof (cases "i < length s")
      case True
      then have "(int i + 1) mod int (length xs) = int i + 1" by (simp add: xs_def)
      then show ?thesis using True i by (simp add: xs_def nth_append nat_add_distrib)
    next
      case False
      then have e: "i = length s" using i by (simp add: xs_def)
      then have "int i + 1 = int (length xs)" by (simp add: xs_def)
      then have "(int i + 1) mod int (length xs) = 0" by (simp only: mod_self)
      then show ?thesis using e i by (simp add: xs_def nth_append)
    qed
  qed
  with r show ?thesis by (simp only: xs_def)
qed

lemma js_get_head: "js_get (x # s) (Fin 0) = x"
  by simp

lemma split_helper_step:
  "split_helper a (x # s) =
     (if js_gt0 x then
        (if drop (rel_index (length a) (to_number x)) a = []
         then Some [Arr (take (rel_index (length a) (to_number x)) a)]
         else Option.bind (split_helper (drop (rel_index (length a) (to_number x)) a) (s @ [x]))
                (\<lambda>rest. Some (Arr (take (rel_index (length a) (to_number x)) a) # rest)))
      else split_helper a (s @ [x]))"
  by (subst split_helper.simps)
     (simp only: js_get_head js_slice_from0 js_slice_to_end rotate_js_left1 toArray_def jsval.case
        length_0_conv less_one)


lemma one_le_pos: "one_le n \<Longrightarrow> n_lt (Fin 0) n"
  by (cases n) (simp_all add: one_le_def)

lemma one_le_progress:
  assumes "one_le n" "0 < len"
  shows "0 < rel_index len n"
proof (cases n)
  case (Fin q)
  then have "1 \<le> q" using assms by (simp add: one_le_def)
  then have "1 \<le> \<lfloor>q\<rfloor>" "0 \<le> q" by (simp_all add: le_floor_iff)
  then show ?thesis using Fin assms by (simp add: trunc_rat_def)
qed (use assms in \<open>simp_all add: one_le_def\<close>)

lemma takeWhile_stops_early:
  assumes "y \<in> set ys" and "\<not> P y"
  shows "length (takeWhile P ys) < length ys"
  using assms by (induction ys) auto

lemma split_helper_terminates:
  assumes "\<exists>x\<in>set s. one_le (to_number x)"
  shows "\<exists>ch. split_helper a s = Some ch \<and> concat (map toArray ch) = a"
  using assms
proof (induction "length a * length s + length (takeWhile (\<lambda>x. \<not> one_le (to_number x)) s)"
       arbitrary: a s rule: less_induct)
  case less
  obtain x s' where s: "s = x # s'" using less.prems by (cases s) auto
  define k where "k = rel_index (length a) (to_number x)"
  define idx where "idx = (\<lambda>s. length (takeWhile (\<lambda>x. \<not> one_le (to_number x)) s))"
  have good': "\<exists>y\<in>set (s' @ [x]). one_le (to_number y)" using less.prems s by auto
  have step: "split_helper a s =
     (if js_gt0 x then
        (if drop k a = [] then Some [Arr (take k a)]
         else Option.bind (split_helper (drop k a) (s' @ [x])) (\<lambda>rest. Some (Arr (take k a) # rest)))
      else split_helper a (s' @ [x]))"
    unfolding s k_def by (rule split_helper_step)
  show ?case
  proof (cases "js_gt0 x \<and> drop k a = []")
    case True
    then have "split_helper a s = Some [Arr (take k a)]" using step by simp
    moreover have "take k a = a" using True by simp
    ultimately show ?thesis by (simp add: toArray_def)
  next
    case False
    define a' where "a' = (if js_gt0 x then drop k a else a)"
    have step': "split_helper a s =
       (if js_gt0 x then Option.bind (split_helper a' (s' @ [x])) (\<lambda>rest. Some (Arr (take k a) # rest))
        else split_helper a' (s' @ [x]))"
      using step False by (auto simp: a'_def)
    have le: "length a' \<le> length a" by (simp add: a'_def)
    have "length a' * length (s' @ [x]) + idx (s' @ [x]) < length a * length s + idx s"
    proof (cases "one_le (to_number x)")
      case True
      then have gt: "js_gt0 x" by (simp add: js_gt0_def one_le_pos)
      with False have ne: "drop k a \<noteq> []" by simp
      then have "0 < length a" by (cases a) simp_all
      then have "0 < k" using True unfolding k_def by (rule one_le_progress[rotated])
      then have "length a' < length a" using gt ne by (simp add: a'_def)
      then have "Suc (length a') \<le> length a" by simp
      then have "Suc (length a') * length s \<le> length a * length s" by (rule mult_le_mono1)
      moreover have "idx (s' @ [x]) < length (s' @ [x])"
        unfolding idx_def using True by (intro takeWhile_stops_early[of x]) simp_all
      ultimately show ?thesis by (simp add: s)
    next
      case False
      then obtain y where y: "y \<in> set s'" "one_le (to_number y)" using less.prems s by auto
      then have "idx (s' @ [x]) = idx s'" by (simp add: idx_def takeWhile_append1)
      moreover have "idx s = Suc (idx s')" using False by (simp add: idx_def s)
      moreover have "length a' * length s \<le> length a * length s" using le by (rule mult_le_mono1)
      ultimately show ?thesis by (simp add: s)
    qed
    then have "\<exists>ch. split_helper a' (s' @ [x]) = Some ch \<and> concat (map toArray ch) = a'"
      unfolding idx_def using good' by (rule less.hyps)
    then obtain ch where ch: "split_helper a' (s' @ [x]) = Some ch" "concat (map toArray ch) = a'"
      by blast
    show ?thesis
    proof (cases "js_gt0 x")
      case True
      then have "split_helper a s = Some (Arr (take k a) # ch)" using step' ch by simp
      moreover have "concat (map toArray (Arr (take k a) # ch)) = a"
        using ch True by (simp add: toArray_def a'_def)
      ultimately show ?thesis by blast
    next
      case False
      then show ?thesis using step' ch by (simp add: a'_def)
    qed
  qed
qed

lemma split_js_arrays: "split_js (Arr a) (Arr s) = split_helper a s"
  by (simp add: split_js_def dflt_def toArray_def)

lemma split_example:
  "split_js (Arr [Num (Fin 1), Num (Fin 2), Num (Fin 3), Num (Fin 4), Num (Fin 5), Num (Fin 6), Num (Fin 7)])
            (Arr [Num (Fin 2), Num (Fin 3)])
   = Some [Arr [Num (Fin 1), Num (Fin 2)], Arr [Num (Fin 3), Num (Fin 4), Num (Fin 5)],
           Arr [Num (Fin 6), Num (Fin 7)]]"
  by (simp add: split_js_arrays split_helper_step js_gt0_def trunc_rat_def)


lemma split_integer_sizes:
  assumes "\<exists>n\<in>set ns. (0::int) < n"
  shows "\<exists>ch. split_js (Arr a) (Arr (map (\<lambda>n. Num (Fin (of_int n))) ns)) = Some ch
              \<and> concat (map toArray ch) = a"
proof -
  from assms obtain n where "n \<in> set ns" "1 \<le> n" by auto
  then have "\<exists>x\<in>set (map (\<lambda>n. Num (Fin (of_int n))) ns). one_le (to_number x)"
    by (auto simp: one_le_def intro!: bexI[of _ n])
  then show ?thesis unfolding split_js_arrays by (rule split_helper_terminates)
qed


text \<open>
  Claim C6, as amended. When the sizes are numbers with at least one entry that is 1
  or more (so for integer sizes: at least one strictly positive entry), \<open>split\<close>
  terminates and the chunks it returns concatenate to the input. A zero at the head of
  the sizes is skipped without a chunk being emitted, a positive head cuts one chunk,
  and in both cases the sizes go on rotated by one position.
  \<open>split([1,2,3,4,5,6,7], [2,3])\<close> is \<open>[[1,2],[3,4,5],[6,7]]\<close>.
\<close>

theorem split_consumes_input:
  "((\<exists>n\<in>set ns. one_le n) \<longrightarrow>
      (\<exists>ch. split_js (Arr a) (Arr (map Num ns)) = Some ch \<and> concat (map toArray ch) = a))
   \<and> split_js (Arr a) (Arr (Num (Fin 0) # s)) = split_js (Arr a) (Arr (s @ [Num (Fin 0)]))
   \<and> (n_lt (Fin 0) n \<longrightarrow>
        split_js (Arr a) (Arr (Num n # s)) =
          (if drop (rel_index (length a) n) a = [] then Some [Arr (take (rel_index (length a) n) a)]
           else Option.bind (split_js (Arr (drop (rel_index (length a) n) a)) (Arr (s @ [Num n])))
                  (\<lambda>rest. Some (Arr (take (rel_index (length a) n) a) # rest))))
   \<and> split_js (Arr [Num (Fin 1), Num (Fin 2), Num (Fin 3), Num (Fin 4), Num (Fin 5), Num (Fin 6), Num (Fin 7)])
               (Arr [Num (Fin 2), Num (Fin 3)])
      = Some [Arr [Num (Fin 1), Num (Fin 2)], Arr [Num (Fin 3), Num (Fin 4), Num (Fin 5)],
              Arr [Num (Fin 6), Num (Fin 7)]]"
proof (intro conjI impI)
  assume "\<exists>n\<in>set ns. one_le n"
  then have "\<exists>x\<in>set (map Num ns). one_le (to_number x)" by simp
  then show "\<exists>ch. split_js (Arr a) (Arr (map Num ns)) = Some ch \<and> concat (map toArray ch) = a"
    unfolding split_js_arrays by (rule split_helper_terminates)
next
  show "split_js (Arr a) (Arr (Num (Fin 0) # s)) = split_js (Arr a) (Arr (s @ [Num (Fin 0)]))"
    unfolding split_js_arrays by (subst split_helper_step) (simp add: js_gt0_def)
next
  assume "n_lt (Fin 0) n"
  then show "split_js (Arr a) (Arr (Num n # s)) =
          (if drop (rel_index (length a) n) a = [] then Some [Arr (take (rel_index (length a) n) a)]
           else Option.bind (split_js (Arr (drop (rel_index (length a) n) a)) (Arr (s @ [Num n])))
                  (\<lambda>rest. Some (Arr (take (rel_index (length a) n) a) # rest)))"
    unfolding split_js_arrays by (subst split_helper_step) (simp add: js_gt0_def)
next
  show "split_js (Arr [Num (Fin 1), Num (Fin 2), Num (Fin 3), Num (Fin 4), Num (Fin 5), Num (Fin 6), Num (Fin 7)])
               (Arr [Num (Fin 2), Num (Fin 3)])
      = Some [Arr [Num (Fin 1), Num (Fin 2)], Arr [Num (Fin 3), Num (Fin 4), Num (Fin 5)],
              Arr [Num (Fin 6), Num (Fin 7)]]"
    by (rule split_example)
qed

theorem split_consumes_input_witness:
  "(\<exists>n\<in>set [Fin 0, Fin 3]. one_le n)
   \<and> (\<exists>ch. split_js (Arr [Num (Fin 1), Num (Fin 2), Num (Fin 3), Num (Fin 4)]) (Arr (map Num [Fin 0, Fin 3])) = Some ch
          \<and> concat (map toArray ch) = [Num (Fin 1), Num (Fin 2), Num (Fin 3), Num (Fin 4)])
   \<and> split_js (Arr [Num (Fin 1), Num (Fin 2), Num (Fin 3), Num (Fin 4)]) (Arr (map Num [Fin 0, Fin 3]))
       = Some [Arr [Num (Fin 1), Num (Fin 2), Num (Fin 3)], Arr [Num (Fin 4)]]"
proof -
  have h: "\<exists>n\<in>set [Fin 0, Fin 3]. one_le n" by (simp add: one_le_def)
  have v: "split_js (Arr [Num (Fin 1), Num (Fin 2), Num (Fin 3), Num (Fin 4)]) (Arr (map Num [Fin 0, Fin 3]))
       = Some [Arr [Num (Fin 1), Num (Fin 2), Num (Fin 3)], Arr [Num (Fin 4)]]"
    by (simp add: split_js_arrays split_helper_step js_gt0_def trunc_rat_def)
  from split_consumes_input[where ns = "[Fin 0, Fin 3]" and a = "[Num (Fin 1), Num (Fin 2), Num (Fin 3), Num (Fin 4)]"] h v
  show ?thesis by blast
qed

text \<open>
  A positive size below 1 cuts an empty prefix off. When no size reaches 1 the input
  never shrinks: on \<open>[1]\<close> with sizes \<open>[0.5]\<close> every call of \<open>_split\<close> calls \<open>split\<close> on
  the same arguments again.
\<close>

lemma split_helper_half_aux:
  assumes "split_helper a s = Some y"
  shows "\<not> (a = [Num (Fin 1)] \<and> s = [Num (Fin (1/2))])"
proof (rule split_helper.raw_induct
    [where P = "\<lambda>a s (y::jsval list). \<not> (a = [Num (Fin 1)] \<and> s = [Num (Fin (1/2))])", OF _ assms],
    goal_cases)
  case (1 f a s y)
  have e1: "js_slice [Num (Fin 1)] (Fin (1/2)) (Fin 1) = [Num (Fin 1)]"
    by (simp add: js_slice_def trunc_rat_def)
  have e2: "js_slice [Num (Fin 1)] (Fin 0) (Fin (1/2)) = []"
    by (simp add: js_slice_def trunc_rat_def)
  have e3: "rotate_js (Arr [Num (Fin (1/2))]) (Fin (- 1)) = [Num (Fin (1/2))]"
    using rotate_js_left1[of "Num (Fin (1/2))" "[]"] by simp
  show ?case
  proof
    assume "a = [Num (Fin 1)] \<and> s = [Num (Fin (1/2))]"
    then have a: "a = [Num (Fin 1)]" and s: "s = [Num (Fin (1/2))]" by simp_all
    from 1(2) have "Option.bind (f [Num (Fin 1)] [Num (Fin (1/2))])
                      (\<lambda>rest. Some (Arr [] # rest)) = Some y"
      unfolding a s by (simp add: toArray_def js_gt0_def e1 e2 e3)
    then obtain rest where "f [Num (Fin 1)] [Num (Fin (1/2))] = Some rest"
      by (cases "f [Num (Fin 1)] [Num (Fin (1/2))]") simp_all
    from 1(1)[OF this] show False by simp
  qed
qed


text \<open>
  Claim C6 as stated, for every sizes list with a strictly positive entry, fails for a
  fractional size: \<open>split([1], [0.5])\<close> never returns.
\<close>

theorem split_fractional_size_never_returns:
  "split_js (Arr [Num (Fin 1)]) (Arr [Num (Fin (1/2))]) = None"
proof (cases "split_helper [Num (Fin 1)] [Num (Fin (1/2))]")
  case None
  then show ?thesis by (simp add: split_js_def dflt_def toArray_def)
next
  case (Some y)
  from split_helper_half_aux[OF this] show ?thesis by simp
qed


end
